theory Spec2Isabelle
  imports Main "HOL-Library.AList" "HOL-Library.Signed_Division"
begin

section \<open>Keepalive timing constants (package websocket, client.go)\<close>

text \<open>
  Go's \<^verbatim>\<open>time.Duration\<close> is a signed 64-bit count of nanoseconds. The constants below
  are typed constant expressions, which Go evaluates exactly at compile time (an overflow
  is a compile error), so they are modelled as \<^typ>\<open>int\<close>. The units are those of Go's
  standard \<^verbatim>\<open>time\<close> package. Go's integer \<^verbatim>\<open>/\<close> truncates towards zero, which
  is \<open>sdiv\<close>.
\<close>

definition Nanosecond :: int where
  "Nanosecond = 1"

definition Microsecond :: int where
  "Microsecond = 1000 * Nanosecond"

definition Millisecond :: int where
  "Millisecond = 1000 * Microsecond"

definition Second :: int where
  "Second = 1000 * Millisecond"

definition writeWait :: int where
  "writeWait = 10 * Second"

definition pongWait :: int where
  "pongWait = 60 * Second"

definition pingPeriod :: int where
  "pingPeriod = (pongWait * 9) sdiv 10"

definition maxMessageSize :: int where
  "maxMessageSize = 512"

section \<open>Channels\<close>

text \<open>
  A payload is a Go byte slice; a character of \<^typ>\<open>string\<close> is one byte. A buffered
  channel is its pending elements in arrival order, its capacity, and whether it has been
  closed. The three operations below are the ones the hub and the sessions use, with Go's
  run-time behaviour: sending on a closed channel panics, closing a closed channel panics,
  a send finds room exactly when fewer than \<open>cap\<close> elements are pending, and a receive
  takes the oldest pending element even after the channel was closed. An operation that
  cannot make progress is reported as such (\<open>None\<close>, \<open>WouldBlock\<close>) instead of
  waiting. Every channel here is made with a positive capacity, so a send with room never
  needs a waiting receiver.
\<close>

type_synonym payload = string

record chan =
  buf :: "payload list"
  cap :: nat
  closed :: bool

datatype panic = SendOnClosedChannel | CloseOfClosedChannel | NilDereference

datatype recv = Got payload chan | ClosedEmpty | WouldBlock

definition make_chan :: "nat \<Rightarrow> chan" where
  "make_chan n = \<lparr>buf = [], cap = n, closed = False\<rparr>"

definition send_chan :: "payload \<Rightarrow> chan \<Rightarrow> panic + chan option" where
  "send_chan m ch =
     (if closed ch then Inl SendOnClosedChannel
      else if length (buf ch) < cap ch then Inr (Some (ch\<lparr>buf := buf ch @ [m]\<rparr>))
      else Inr None)"

definition close_chan :: "chan \<Rightarrow> panic + chan" where
  "close_chan ch = (if closed ch then Inl CloseOfClosedChannel else Inr (ch\<lparr>closed := True\<rparr>))"

definition recv_chan :: "chan \<Rightarrow> recv" where
  "recv_chan ch =
     (case buf ch of
        m # ms \<Rightarrow> Got m (ch\<lparr>buf := ms\<rparr>)
      | [] \<Rightarrow> if closed ch then ClosedEmpty else WouldBlock)"

section \<open>The hub (package websocket, hub.go) and the gateway's serveWs\<close>

text \<open>
  A client is identified by its pointer, here a number: the \<open>n\<close>-th \<^verbatim>\<open>Client\<close> struct
  that \<^verbatim>\<open>serveWs\<close> allocated. \<^verbatim>\<open>Hub.clients\<close> is a Go map from client pointers to
  \<^verbatim>\<open>bool\<close>, kept as an association list; \<open>Send\<close> is the heap, giving each allocated
  client its \<^verbatim>\<open>Send\<close> channel. \<^verbatim>\<open>Hub.Register\<close> and \<^verbatim>\<open>Hub.unregister\<close> are
  unbuffered channels: a send on them completes together with the receive in \<^verbatim>\<open>Run\<close>,
  so they carry no state of their own. The mutex \<^verbatim>\<open>mu\<close> is taken by \<^verbatim>\<open>Run\<close> alone
  and the broker connection is used only to subscribe; neither is part of the state.

  \<open>hlog\<close> is a history variable, newest entry first, which no operation reads: it
  records each register and unregister request \<^verbatim>\<open>Run\<close> handles, each successful push
  into a session channel and each \<^verbatim>\<open>close(client.Send)\<close>.
\<close>

type_synonym client = nat

datatype hub_action =
  Registered client | Unregistered client | Pushed client payload | Closed client

record Hub =
  clients :: "(client \<times> bool) list"
  broadcast :: chan

record world = Hub +
  Send :: "client \<Rightarrow> chan option"
  created :: nat
  hlog :: "hub_action list"

definition NewHub :: Hub where
  "NewHub = \<lparr>clients = [], broadcast = make_chan 256\<rparr>"

definition boot :: world where
  "boot = \<lparr>clients = clients NewHub, broadcast = broadcast NewHub,
            Send = (\<lambda>_. None), created = 0, hlog = []\<rparr>"

definition members :: "world \<Rightarrow> client set" where
  "members w = fst ` set (clients w)"

text \<open>\<^verbatim>\<open>case client := <-h.Register\<close>: \<^verbatim>\<open>h.clients[client] = true\<close>.\<close>

definition Run_Register :: "client \<Rightarrow> world \<Rightarrow> world" where
  "Run_Register c w =
     w\<lparr>clients := AList.update c True (clients w), hlog := Registered c # hlog w\<rparr>"

text \<open>
  \<^verbatim>\<open>case client := <-h.unregister\<close>: if the client is a key of the map, delete it and
  close its channel.
\<close>

definition Run_unregister :: "client \<Rightarrow> world \<Rightarrow> panic + world" where
  "Run_unregister c w =
     (case map_of (clients w) c of
        None \<Rightarrow> Inr (w\<lparr>hlog := Unregistered c # hlog w\<rparr>)
      | Some _ \<Rightarrow>
          (case Send w c of
             None \<Rightarrow> Inl NilDereference
           | Some ch \<Rightarrow>
               (case close_chan ch of
                  Inl p \<Rightarrow> Inl p
                | Inr ch' \<Rightarrow>
                    Inr (w\<lparr>clients := AList.delete c (clients w),
                           Send := (Send w)(c \<mapsto> ch'),
                           hlog := Closed c # Unregistered c # hlog w\<rparr>))))"

text \<open>
  The body of the loop over \<^verbatim>\<open>h.clients\<close> in the broadcast case: a \<^verbatim>\<open>select\<close> with a
  send and a \<^verbatim>\<open>default\<close>. The default branch closes the channel and deletes the client.
\<close>

definition deliver :: "payload \<Rightarrow> client \<Rightarrow> world \<Rightarrow> panic + world" where
  "deliver message c w =
     (case Send w c of
        None \<Rightarrow> Inl NilDereference
      | Some ch \<Rightarrow>
          (case send_chan message ch of
             Inl p \<Rightarrow> Inl p
           | Inr (Some ch') \<Rightarrow>
               Inr (w\<lparr>Send := (Send w)(c \<mapsto> ch'), hlog := Pushed c message # hlog w\<rparr>)
           | Inr None \<Rightarrow>
               (case close_chan ch of
                  Inl p \<Rightarrow> Inl p
                | Inr ch' \<Rightarrow>
                    Inr (w\<lparr>clients := AList.delete c (clients w),
                           Send := (Send w)(c \<mapsto> ch'),
                           hlog := Closed c # hlog w\<rparr>))))"

text \<open>
  \<^verbatim>\<open>for client := range h.clients\<close>. Go visits every key present when the loop starts
  unless it is deleted before its turn, in an unspecified order. The body deletes only the
  key being visited, so the loop visits exactly the keys of the map at its start; the order
  taken here is that of the association list, and \<open>fan_out\<close> takes the keys as a list so
  that the order can be varied.
\<close>

fun fan_out :: "payload \<Rightarrow> client list \<Rightarrow> world \<Rightarrow> panic + world" where
  "fan_out message [] w = Inr w"
| "fan_out message (c # cs) w =
     (case deliver message c w of
        Inl p \<Rightarrow> Inl p
      | Inr w' \<Rightarrow> fan_out message cs w')"

definition Run_broadcast :: "payload \<Rightarrow> world \<Rightarrow> panic + world" where
  "Run_broadcast message w = fan_out message (map fst (clients w)) w"

text \<open>
  \<^verbatim>\<open>serveWs\<close> (gateway): after a successful upgrade it allocates a new client with a
  fresh channel of capacity 256 and sends it on \<^verbatim>\<open>Hub.Register\<close>; a failed upgrade
  returns at once.
\<close>

definition serveWs :: "bool \<Rightarrow> world \<Rightarrow> world" where
  "serveWs upgraded w =
     (if \<not> upgraded then w
      else
        let client = created w;
            w' = w\<lparr>Send := (Send w)(client \<mapsto> make_chan 256), created := Suc client\<rparr>
        in Run_Register client w')"

text \<open>
  The subscription callback of \<^verbatim>\<open>Run\<close>: \<^verbatim>\<open>h.broadcast <- msg.Data\<close>, a blocking send.
  While the intake is full the callback waits, that is, it takes no step.
\<close>

definition on_nats_msg :: "payload \<Rightarrow> world \<Rightarrow> panic + world" where
  "on_nats_msg data w =
     (case send_chan data (broadcast w) of
        Inl p \<Rightarrow> Inl p
      | Inr None \<Rightarrow> Inr w
      | Inr (Some ch) \<Rightarrow> Inr (w\<lparr>broadcast := ch\<rparr>))"

text \<open>
  \<^verbatim>\<open>case message := <-h.broadcast\<close>: not ready while the intake is empty; a closed and
  empty intake would yield the nil slice.
\<close>

definition Run_take_broadcast :: "world \<Rightarrow> panic + world" where
  "Run_take_broadcast w =
     (case recv_chan (broadcast w) of
        WouldBlock \<Rightarrow> Inr w
      | ClosedEmpty \<Rightarrow> Run_broadcast [] w
      | Got message ch \<Rightarrow> Run_broadcast message (w\<lparr>broadcast := ch\<rparr>))"

text \<open>One receive \<^verbatim>\<open><-c.Send\<close> by the write loop of client \<open>c\<close>.\<close>

definition session_recv :: "client \<Rightarrow> world \<Rightarrow> world" where
  "session_recv c w =
     (case Send w c of
        None \<Rightarrow> w
      | Some ch \<Rightarrow>
          (case recv_chan ch of
             Got message ch' \<Rightarrow> w\<lparr>Send := (Send w)(c \<mapsto> ch')\<rparr>
           | _ \<Rightarrow> w))"

text \<open>
  The atomic steps of the running gateway, in any interleaving: a connection is served,
  a read loop ends and sends its client on \<^verbatim>\<open>unregister\<close>, the broker delivers a
  message to the callback, \<^verbatim>\<open>Run\<close> takes its broadcast case, a write loop receives from
  its channel.
\<close>

datatype event =
  ServeWs bool | Unregister client | NatsMsg payload | HubBroadcast | SessionRecv client

fun step :: "event \<Rightarrow> world \<Rightarrow> panic + world" where
  "step (ServeWs upgraded) w = Inr (serveWs upgraded w)"
| "step (Unregister c) w = Run_unregister c w"
| "step (NatsMsg data) w = on_nats_msg data w"
| "step HubBroadcast w = Run_take_broadcast w"
| "step (SessionRecv c) w = Inr (session_recv c w)"

fun run :: "event list \<Rightarrow> world \<Rightarrow> panic + world" where
  "run [] w = Inr w"
| "run (e # es) w = (case step e w of Inl p \<Rightarrow> Inl p | Inr w' \<Rightarrow> run es w')"

text \<open>
  Reading the history: a client is live when its newest register, unregister or close
  entry is a register; a history is sound when no channel is pushed into or closed after
  it was closed.
\<close>

fun is_live :: "client \<Rightarrow> hub_action list \<Rightarrow> bool" where
  "is_live c [] = False"
| "is_live c (Registered d # l) = (if d = c then True else is_live c l)"
| "is_live c (Unregistered d # l) = (if d = c then False else is_live c l)"
| "is_live c (Closed d # l) = (if d = c then False else is_live c l)"
| "is_live c (Pushed d m # l) = is_live c l"

fun no_use_after_close :: "hub_action list \<Rightarrow> bool" where
  "no_use_after_close [] = True"
| "no_use_after_close (Pushed c m # l) = (Closed c \<notin> set l \<and> no_use_after_close l)"
| "no_use_after_close (Closed c # l) = (Closed c \<notin> set l \<and> no_use_after_close l)"
| "no_use_after_close (Registered c # l) = no_use_after_close l"
| "no_use_after_close (Unregistered c # l) = no_use_after_close l"

text \<open>
  \<^verbatim>\<open>Hub.Register\<close> is an exported field, so code outside \<^verbatim>\<open>serveWs\<close> could send any
  client on it, also one that is registered already or whose channel the hub has closed.
  The wider runs below add such a request to the steps of the gateway.
\<close>

datatype request = Gateway event | Register client

fun handle :: "request \<Rightarrow> world \<Rightarrow> panic + world" where
  "handle (Gateway e) w = step e w"
| "handle (Register c) w = Inr (Run_Register c w)"

fun run_open :: "request list \<Rightarrow> world \<Rightarrow> panic + world" where
  "run_open [] w = Inr w"
| "run_open (r # rs) w = (case handle r w of Inl p \<Rightarrow> Inl p | Inr w' \<Rightarrow> run_open rs w')"

section \<open>The start of Run\<close>

text \<open>
  \<^verbatim>\<open>Run\<close> first calls \<^verbatim>\<open>h.nats.Subscribe\<close> as an expression statement, so both
  results (the subscription and the error) are dropped; it then logs that the hub is
  subscribed (the log line is given here without its leading emoji) and enters the loop.
  The argument says whether \<^verbatim>\<open>Subscribe\<close> returned an error; after a failed
  subscription the callback is never invoked, so no broker message reaches the intake.
  The result is the log and the outcome of the loop on the given steps.
\<close>

fun from_broker :: "event \<Rightarrow> bool" where
  "from_broker (NatsMsg data) = True"
| "from_broker e = False"

definition Run :: "bool \<Rightarrow> event list \<Rightarrow> string list \<times> (panic + world)" where
  "Run subscribe_failed es =
     ([''Hub subscribed to tasks.* events''],
      run (if subscribe_failed then filter (\<lambda>e. \<not> from_broker e) es else es) boot)"

section \<open>A client session (package websocket, client.go)\<close>

text \<open>
  A session is seen through its channel \<^verbatim>\<open>c.Send\<close>, the frames its write loop has
  handed to the connection, whether \<^verbatim>\<open>c.Conn.Close()\<close> and \<^verbatim>\<open>ticker.Stop()\<close> were
  called, how often the client was sent on \<^verbatim>\<open>Hub.unregister\<close>, and which of its two
  loops are still running. The connection is the websocket library's; \<open>transport\<close> holds
  its answers during one turn of the write loop: whether \<^verbatim>\<open>NextWriter\<close>, the writer's
  \<^verbatim>\<open>Close\<close> (which flushes the frame) and \<^verbatim>\<open>WriteMessage\<close> return without error.
  Deadlines are set before each write; time itself is not modelled.
\<close>

datatype frame_type = TextMessage | CloseMessage | PingMessage

datatype ctl = Continue | Return

record transport =
  next_writer_ok :: bool
  flush_ok :: bool
  control_ok :: bool

record session =
  queue :: chan
  wire :: "(frame_type \<times> payload) list"
  conn_closed :: bool
  ticker_stopped :: bool
  unregister_sends :: nat
  read_running :: bool
  write_running :: bool

definition newline :: char where
  "newline = CHR 0x0A"

text \<open>
  \<^verbatim>\<open>for i := 0; i < n; i++ { w.Write([]byte{'\n'}); w.Write(<-c.Send) }\<close>, with the bytes
  written so far as accumulator. A receive from a closed and drained channel yields the nil
  slice, so only the newline is written. The write loop is the only receiver and \<open>n\<close> is
  the number of pending elements, so the receive never has to wait; the last branch only
  makes the function total and is not reached (lemma \<open>coalesce_all\<close>).
\<close>

fun coalesce :: "nat \<Rightarrow> chan \<Rightarrow> payload \<Rightarrow> payload \<times> chan" where
  "coalesce 0 ch w = (w, ch)"
| "coalesce (Suc i) ch w =
     (case recv_chan ch of
        Got m ch' \<Rightarrow> coalesce i ch' (w @ [newline] @ m)
      | ClosedEmpty \<Rightarrow> coalesce i ch (w @ [newline])
      | WouldBlock \<Rightarrow> coalesce i ch (w @ [newline]))"

text \<open>
  \<^verbatim>\<open>case message, ok := <-c.Send\<close> of the write loop. A closed and drained channel
  gives \<^verbatim>\<open>!ok\<close>: a close frame is written (its error is ignored) and the loop returns.
  Otherwise the message and everything pending behind it go into one text frame; an
  error from \<^verbatim>\<open>NextWriter\<close> or from the flush makes the loop return.
\<close>

definition write_message_case :: "transport \<Rightarrow> session \<Rightarrow> ctl \<times> session" where
  "write_message_case t s =
     (case recv_chan (queue s) of
        WouldBlock \<Rightarrow> (Continue, s)
      | ClosedEmpty \<Rightarrow>
          (Return, if control_ok t then s\<lparr>wire := wire s @ [(CloseMessage, [])]\<rparr> else s)
      | Got message ch \<Rightarrow>
          if \<not> next_writer_ok t then (Return, s\<lparr>queue := ch\<rparr>)
          else
            (case coalesce (length (buf ch)) ch message of
               (w, ch') \<Rightarrow>
                 if flush_ok t
                 then (Continue, s\<lparr>queue := ch', wire := wire s @ [(TextMessage, w)]\<rparr>)
                 else (Return, s\<lparr>queue := ch'\<rparr>)))"

text \<open>\<^verbatim>\<open>case <-ticker.C\<close>: write a ping; an error makes the loop return.\<close>

definition write_ticker_case :: "transport \<Rightarrow> session \<Rightarrow> ctl \<times> session" where
  "write_ticker_case t s =
     (if control_ok t then (Continue, s\<lparr>wire := wire s @ [(PingMessage, [])]\<rparr>)
      else (Return, s))"

text \<open>
  The deferred functions. The write loop's stops the ticker and closes the connection;
  the read loop's sends the client on \<^verbatim>\<open>Hub.unregister\<close> and closes the connection.
\<close>

definition write_deferred :: "session \<Rightarrow> session" where
  "write_deferred s = s\<lparr>ticker_stopped := True, conn_closed := True, write_running := False\<rparr>"

definition read_deferred :: "session \<Rightarrow> session" where
  "read_deferred s =
     s\<lparr>unregister_sends := Suc (unregister_sends s), conn_closed := True,
       read_running := False\<rparr>"

text \<open>
  What \<^verbatim>\<open>c.Conn.ReadMessage()\<close> returns. The one fact about the connection used here is
  that of Go's network connections: a read after \<^verbatim>\<open>Close\<close> returns an error. Otherwise
  the result is the peer's: a message, or an error (a read error, a frame over the read
  limit, the pong deadline passing).
\<close>

datatype read_result = ReadOk payload | ReadErr

definition ReadMessage :: "read_result \<Rightarrow> session \<Rightarrow> read_result" where
  "ReadMessage peer s = (if conn_closed s then ReadErr else peer)"

text \<open>
  The two loops, one turn at a time and in any interleaving. \<^verbatim>\<open>WriteMsgToWebSocket\<close>
  wakes on its channel or on its ticker; \<^verbatim>\<open>ReadMsgFromWebSocket\<close> wakes when
  \<^verbatim>\<open>ReadMessage\<close> returns, logs a message and goes on, or breaks on an error. A loop that
  returns runs its deferred function and takes no further turn.
\<close>

datatype wake = SendReady transport | TickerFired transport

datatype session_event = WriteWakes wake | ReadReturns read_result

definition WriteMsgToWebSocket_turn :: "wake \<Rightarrow> session \<Rightarrow> session" where
  "WriteMsgToWebSocket_turn k s =
     (if \<not> write_running s then s
      else
        (case (case k of
                 SendReady t \<Rightarrow> write_message_case t s
               | TickerFired t \<Rightarrow> write_ticker_case t s) of
           (Continue, s') \<Rightarrow> s'
         | (Return, s') \<Rightarrow> write_deferred s'))"

definition ReadMsgFromWebSocket_turn :: "read_result \<Rightarrow> session \<Rightarrow> session" where
  "ReadMsgFromWebSocket_turn peer s =
     (if \<not> read_running s then s
      else
        (case ReadMessage peer s of
           ReadOk message \<Rightarrow> s
         | ReadErr \<Rightarrow> read_deferred s))"

fun session_step :: "session_event \<Rightarrow> session \<Rightarrow> session" where
  "session_step (WriteWakes k) s = WriteMsgToWebSocket_turn k s"
| "session_step (ReadReturns peer) s = ReadMsgFromWebSocket_turn peer s"

fun session_run :: "session_event list \<Rightarrow> session \<Rightarrow> session" where
  "session_run [] s = s"
| "session_run (e # es) s = session_run es (session_step e s)"

text \<open>The session as \<^verbatim>\<open>serveWs\<close> starts it, with the given channel contents.\<close>

definition start_session :: "chan \<Rightarrow> session" where
  "start_session ch =
     \<lparr>queue = ch, wire = [], conn_closed = False, ticker_stopped = False,
      unregister_sends = 0, read_running = True, write_running = True\<rparr>"

fun is_write_event :: "session_event \<Rightarrow> bool" where
  "is_write_event (WriteWakes k) = True"
| "is_write_event (ReadReturns peer) = False"

text \<open>Payloads joined by the newline delimiter, in the words of the specification.\<close>

fun join_newline :: "payload list \<Rightarrow> payload" where
  "join_newline [] = []"
| "join_newline [p] = p"
| "join_newline (p # q # qs) = p @ [newline] @ join_newline (q # qs)"

section \<open>Invariants of the running hub\<close>

text \<open>
  \<open>has_room\<close> says that a client's channel can take one more element; \<open>attempt\<close> is
  what one turn of the broadcast loop does to an open channel: append the message, or
  close the channel when it is full.
\<close>

definition has_room :: "world \<Rightarrow> client \<Rightarrow> bool" where
  "has_room w c = (case Send w c of None \<Rightarrow> False | Some ch \<Rightarrow> length (buf ch) < cap ch)"

definition attempt :: "payload \<Rightarrow> chan \<Rightarrow> chan" where
  "attempt m ch = (if length (buf ch) < cap ch then ch\<lparr>buf := buf ch @ [m]\<rparr> else ch\<lparr>closed := True\<rparr>)"

text \<open>
  The state invariant: the map has no duplicate keys; every registered client has an open
  channel; every allocated channel has the capacity \<^verbatim>\<open>serveWs\<close> gave it, holds no more
  than that, and belongs to a client allocated earlier; the intake is open and within its
  capacity; only \<^verbatim>\<open>true\<close> is stored in the map. The history invariant ties the history
  to the state.
\<close>

definition hub_inv :: "world \<Rightarrow> bool" where
  "hub_inv w \<longleftrightarrow>
     distinct (map fst (clients w))
   \<and> (\<forall>c \<in> members w. \<exists>ch. Send w c = Some ch \<and> \<not> closed ch)
   \<and> (\<forall>c ch. Send w c = Some ch \<longrightarrow> cap ch = 256 \<and> length (buf ch) \<le> 256 \<and> c < created w)
   \<and> \<not> closed (broadcast w) \<and> cap (broadcast w) = 256 \<and> length (buf (broadcast w)) \<le> 256
   \<and> (\<forall>c. (c, False) \<notin> set (clients w))"

definition log_inv :: "world \<Rightarrow> bool" where
  "log_inv w \<longleftrightarrow>
     (\<forall>c. Closed c \<in> set (hlog w) \<longleftrightarrow> (\<exists>ch. Send w c = Some ch \<and> closed ch))
   \<and> (\<forall>c. c \<in> members w \<longleftrightarrow> is_live c (hlog w))
   \<and> no_use_after_close (hlog w)"

text \<open>
  What survives arbitrary register requests: the keys are distinct, channels belong to
  clients allocated earlier, and the history agrees with the state.
\<close>

definition open_inv :: "world \<Rightarrow> bool" where
  "open_inv w \<longleftrightarrow>
     distinct (map fst (clients w))
   \<and> (\<forall>c ch. Send w c = Some ch \<longrightarrow> c < created w)
   \<and> log_inv w"

text \<open>
  The invariant of a session: the client has been sent on \<^verbatim>\<open>Hub.unregister\<close> once if
  the read loop has returned and not at all otherwise, and a loop that has returned has
  closed the connection (the write loop has also stopped its ticker).
\<close>

definition loops_ok :: "session \<Rightarrow> bool" where
  "loops_ok s \<longleftrightarrow>
     (read_running s \<longrightarrow> unregister_sends s = 0)
   \<and> (\<not> read_running s \<longrightarrow> unregister_sends s = 1 \<and> conn_closed s)
   \<and> (\<not> write_running s \<longrightarrow> conn_closed s \<and> ticker_stopped s)"

section \<open>Theorems\<close>

lemmas duration_defs =
  Nanosecond_def Microsecond_def Millisecond_def Second_def
  writeWait_def pongWait_def pingPeriod_def

subsection \<open>Single steps preserve the invariants\<close>

lemma delete_filter: "AList.delete c xs = filter (\<lambda>p. fst p \<noteq> c) xs"
  by (induction xs) auto

lemma members_simps [simp]:
  "members (w\<lparr>Send := f\<rparr>) = members w"
  "members (w\<lparr>hlog := l\<rparr>) = members w"
  "members (w\<lparr>broadcast := b\<rparr>) = members w"
  "members (w\<lparr>created := n\<rparr>) = members w"
  "members (w\<lparr>clients := xs\<rparr>) = fst ` set xs"
  by (simp_all add: members_def)

lemma deliver_member:
  assumes "Send w c = Some ch" "\<not> closed ch"
  shows "deliver m c w =
     Inr (if length (buf ch) < cap ch
          then w\<lparr>Send := (Send w)(c \<mapsto> attempt m ch), hlog := Pushed c m # hlog w\<rparr>
          else w\<lparr>clients := AList.delete c (clients w), Send := (Send w)(c \<mapsto> attempt m ch),
                 hlog := Closed c # hlog w\<rparr>)"
  using assms by (simp add: deliver_def send_chan_def close_chan_def attempt_def)

lemma deliver_inv:
  assumes "hub_inv w" "c \<in> members w"
  shows "\<exists>w'. deliver m c w = Inr w' \<and> hub_inv w'
          \<and> clients w' = filter (\<lambda>p. fst p \<noteq> c \<or> has_room w c) (clients w)
          \<and> Send w' = (Send w)(c := map_option (attempt m) (Send w c))
          \<and> created w' = created w \<and> broadcast w' = broadcast w"
proof -
  from assms obtain ch where ch: "Send w c = Some ch" "\<not> closed ch"
    by (auto simp: hub_inv_def)
  from assms(1) ch(1) have bound: "cap ch = 256" "length (buf ch) \<le> 256" "c < created w"
    unfolding hub_inv_def by blast+
  show ?thesis
  proof (cases "length (buf ch) < cap ch")
    case True
    let ?w = "w\<lparr>Send := (Send w)(c \<mapsto> attempt m ch), hlog := Pushed c m # hlog w\<rparr>"
    have e: "deliver m c w = Inr ?w"
      using True ch by (simp add: deliver_member)
    have f: "filter (\<lambda>p. fst p \<noteq> c \<or> has_room w c) (clients w) = clients w"
      using True ch by (simp add: has_room_def)
    have 1: "distinct (map fst (clients ?w))"
      using assms(1) by (simp add: hub_inv_def)
    have 2: "\<forall>d \<in> members ?w. \<exists>ch. Send ?w d = Some ch \<and> \<not> closed ch"
      using assms(1) ch True by (auto simp: hub_inv_def attempt_def)
    have 3: "\<forall>d ch. Send ?w d = Some ch \<longrightarrow> cap ch = 256 \<and> length (buf ch) \<le> 256 \<and> d < created ?w"
      using assms(1) bound True by (auto simp: hub_inv_def attempt_def)
    have 4: "\<not> closed (broadcast ?w) \<and> cap (broadcast ?w) = 256 \<and> length (buf (broadcast ?w)) \<le> 256"
      using assms(1) by (simp add: hub_inv_def)
    have 5: "\<forall>d. (d, False) \<notin> set (clients ?w)"
      using assms(1) by (simp add: hub_inv_def)
    have "hub_inv ?w" using 1 2 3 4 5 unfolding hub_inv_def by blast
    then show ?thesis using e f ch by simp
  next
    case False
    let ?w = "w\<lparr>clients := AList.delete c (clients w), Send := (Send w)(c \<mapsto> attempt m ch),
                 hlog := Closed c # hlog w\<rparr>"
    have e: "deliver m c w = Inr ?w"
      using False ch by (simp add: deliver_member)
    have f: "filter (\<lambda>p. fst p \<noteq> c \<or> has_room w c) (clients w) = AList.delete c (clients w)"
      using False ch by (simp add: has_room_def delete_filter)
    have 1: "distinct (map fst (clients ?w))"
      using assms(1) by (simp add: hub_inv_def distinct_delete)
    have 2: "\<forall>d \<in> members ?w. \<exists>ch. Send ?w d = Some ch \<and> \<not> closed ch"
      using assms(1) by (auto simp: hub_inv_def delete_filter members_def)
    have 3: "\<forall>d ch. Send ?w d = Some ch \<longrightarrow> cap ch = 256 \<and> length (buf ch) \<le> 256 \<and> d < created ?w"
      using assms(1) bound False by (auto simp: hub_inv_def attempt_def)
    have 4: "\<not> closed (broadcast ?w) \<and> cap (broadcast ?w) = 256 \<and> length (buf (broadcast ?w)) \<le> 256"
      using assms(1) by (simp add: hub_inv_def)
    have 5: "\<forall>d. (d, False) \<notin> set (clients ?w)"
      using assms(1) by (simp add: hub_inv_def delete_filter)
    have "hub_inv ?w" using 1 2 3 4 5 unfolding hub_inv_def by blast
    then show ?thesis using e f ch by simp
  qed
qed

lemma fan_out_inv:
  assumes "hub_inv w" "distinct cs" "set cs \<subseteq> members w"
  shows "\<exists>w'. fan_out m cs w = Inr w' \<and> hub_inv w'
          \<and> clients w' = filter (\<lambda>p. fst p \<notin> set cs \<or> has_room w (fst p)) (clients w)
          \<and> Send w' = (\<lambda>d. if d \<in> set cs then map_option (attempt m) (Send w d) else Send w d)
          \<and> created w' = created w \<and> broadcast w' = broadcast w"
  using assms
proof (induction cs arbitrary: w)
  case Nil
  then show ?case by simp
next
  case (Cons c cs)
  from Cons.prems have c: "c \<in> members w" "c \<notin> set cs" "distinct cs" by auto
  from deliver_inv [OF Cons.prems(1) c(1), of m] obtain w1 where
    w1: "deliver m c w = Inr w1" "hub_inv w1"
        "clients w1 = filter (\<lambda>p. fst p \<noteq> c \<or> has_room w c) (clients w)"
        "Send w1 = (Send w)(c := map_option (attempt m) (Send w c))"
        "created w1 = created w" "broadcast w1 = broadcast w"
    by blast
  have sub: "set cs \<subseteq> members w1"
  proof
    fix d assume d: "d \<in> set cs"
    with Cons.prems(3) obtain b where "(d, b) \<in> set (clients w)"
      by (auto simp: members_def)
    moreover from d c(2) have "d \<noteq> c" by auto
    ultimately have "(d, b) \<in> set (clients w1)" by (simp add: w1(3))
    then show "d \<in> members w1" by (force simp: members_def)
  qed
  from Cons.IH [OF w1(2) c(3) sub] obtain w2 where
    w2: "fan_out m cs w1 = Inr w2" "hub_inv w2"
        "clients w2 = filter (\<lambda>p. fst p \<notin> set cs \<or> has_room w1 (fst p)) (clients w1)"
        "Send w2 = (\<lambda>d. if d \<in> set cs then map_option (attempt m) (Send w1 d) else Send w1 d)"
        "created w2 = created w1" "broadcast w2 = broadcast w1"
    by blast
  have room: "has_room w1 d = has_room w d" if "d \<in> set cs" for d
    using that c(2) by (auto simp: has_room_def w1(4))
  have cl: "clients w2 = filter (\<lambda>p. fst p \<notin> set (c # cs) \<or> has_room w (fst p)) (clients w)"
    unfolding w2(3) w1(3) filter_filter
    using c(2) by (intro filter_cong refl) (auto simp: room)
  have sn: "Send w2 = (\<lambda>d. if d \<in> set (c # cs) then map_option (attempt m) (Send w d) else Send w d)"
    unfolding w2(4) w1(4) using c(2) by (auto simp: fun_eq_iff)
  show ?case
    using w1 w2 cl sn by simp
qed

text \<open>The order in which the broadcast loop visits the clients does not matter.\<close>

lemma fan_out_any_order:
  assumes "hub_inv w" "distinct cs" "distinct cs'" "set cs = set cs'" "set cs \<subseteq> members w"
  shows "\<exists>w1 w2. fan_out m cs w = Inr w1 \<and> fan_out m cs' w = Inr w2
           \<and> clients w1 = clients w2 \<and> Send w1 = Send w2
           \<and> broadcast w1 = broadcast w2 \<and> created w1 = created w2"
proof -
  from assms(4,5) have s': "set cs' \<subseteq> members w" by simp
  from fan_out_inv [OF assms(1,2,5), of m] fan_out_inv [OF assms(1,3) s', of m] assms(4)
  show ?thesis by auto
qed

lemma log_inv_push:
  assumes "log_inv w" "Send w c = Some ch" "\<not> closed ch" "length (buf ch) < cap ch"
  shows "log_inv (w\<lparr>Send := (Send w)(c \<mapsto> attempt m ch), hlog := Pushed c m # hlog w\<rparr>)"
proof -
  have "Closed c \<notin> set (hlog w)" using assms by (auto simp: log_inv_def)
  with assms show ?thesis
    by (auto simp: log_inv_def attempt_def)
qed

lemma log_inv_shed:
  assumes "log_inv w" "Send w c = Some ch" "\<not> closed ch" "\<not> length (buf ch) < cap ch"
  shows "log_inv (w\<lparr>clients := AList.delete c (clients w), Send := (Send w)(c \<mapsto> attempt m ch),
                    hlog := Closed c # hlog w\<rparr>)"
proof -
  have "Closed c \<notin> set (hlog w)" using assms by (auto simp: log_inv_def)
  with assms show ?thesis
    by (auto simp: log_inv_def attempt_def delete_filter members_def)
qed


lemma deliver_log:
  assumes "hub_inv w" "log_inv w" "c \<in> members w"
  shows "\<exists>w'. deliver m c w = Inr w' \<and> log_inv w' \<and> (\<exists>new. hlog w' = new @ hlog w)"
proof -
  from assms obtain ch where ch: "Send w c = Some ch" "\<not> closed ch"
    by (auto simp: hub_inv_def)
  show ?thesis
  proof (cases "length (buf ch) < cap ch")
    case True
    with ch log_inv_push [OF assms(2) ch True, of m] show ?thesis
      by (simp add: deliver_member)
  next
    case False
    with ch log_inv_shed [OF assms(2) ch False, of m] show ?thesis
      by (simp add: deliver_member)
  qed
qed

lemma fan_out_log:
  assumes "hub_inv w" "log_inv w" "distinct cs" "set cs \<subseteq> members w"
  shows "\<exists>w'. fan_out m cs w = Inr w' \<and> log_inv w' \<and> (\<exists>new. hlog w' = new @ hlog w)"
  using assms
proof (induction cs arbitrary: w)
  case Nil
  then show ?case by simp
next
  case (Cons c cs)
  from Cons.prems have c: "c \<in> members w" "c \<notin> set cs" "distinct cs" by auto
  from deliver_inv [OF Cons.prems(1) c(1), of m] obtain w1 where
    w1: "deliver m c w = Inr w1" "hub_inv w1"
        "clients w1 = filter (\<lambda>p. fst p \<noteq> c \<or> has_room w c) (clients w)"
    by blast
  from deliver_log [OF Cons.prems(1,2) c(1), of m] w1(1) obtain new1 where
    l1: "log_inv w1" "hlog w1 = new1 @ hlog w"
    by auto
  have sub: "set cs \<subseteq> members w1"
  proof
    fix d assume d: "d \<in> set cs"
    with Cons.prems(4) obtain b where "(d, b) \<in> set (clients w)"
      by (auto simp: members_def)
    moreover from d c(2) have "d \<noteq> c" by auto
    ultimately have "(d, b) \<in> set (clients w1)" by (simp add: w1(3))
    then show "d \<in> members w1" by (force simp: members_def)
  qed
  from Cons.IH [OF w1(2) l1(1) c(3) sub] obtain w2 new2 where
    "fan_out m cs w1 = Inr w2" "log_inv w2" "hlog w2 = new2 @ hlog w1"
    by blast
  with w1(1) l1(2) show ?case by simp
qed

lemma Run_broadcast_inv:
  assumes "hub_inv w" "log_inv w"
  shows "\<exists>w'. Run_broadcast m w = Inr w' \<and> hub_inv w' \<and> log_inv w'
           \<and> (\<exists>new. hlog w' = new @ hlog w)
           \<and> clients w' = filter (\<lambda>p. has_room w (fst p)) (clients w)
           \<and> Send w' = (\<lambda>d. if d \<in> members w then map_option (attempt m) (Send w d) else Send w d)
           \<and> created w' = created w \<and> broadcast w' = broadcast w"
proof -
  have d: "distinct (map fst (clients w))" using assms(1) by (simp add: hub_inv_def)
  have s: "set (map fst (clients w)) \<subseteq> members w" by (simp add: members_def)
  from fan_out_inv [OF assms(1) d s, of m] fan_out_log [OF assms d s, of m]
  have "\<exists>w'. fan_out m (map fst (clients w)) w = Inr w' \<and> hub_inv w' \<and> log_inv w'
           \<and> (\<exists>new. hlog w' = new @ hlog w)
           \<and> clients w' = filter (\<lambda>p. fst p \<notin> set (map fst (clients w)) \<or> has_room w (fst p)) (clients w)
           \<and> Send w' = (\<lambda>d. if d \<in> set (map fst (clients w)) then map_option (attempt m) (Send w d) else Send w d)
           \<and> created w' = created w \<and> broadcast w' = broadcast w"
    by auto
  moreover have "filter (\<lambda>p. fst p \<notin> set (map fst (clients w)) \<or> has_room w (fst p)) (clients w)
      = filter (\<lambda>p. has_room w (fst p)) (clients w)"
    by (intro filter_cong refl) auto
  ultimately show ?thesis
    by (simp add: Run_broadcast_def members_def)
qed


lemma fresh_client:
  assumes "hub_inv w"
  shows "Send w (created w) = None" "created w \<notin> members w"
proof -
  show n: "Send w (created w) = None"
  proof (cases "Send w (created w)")
    case (Some ch)
    with assms have "created w < created w" unfolding hub_inv_def by blast
    then show ?thesis by simp
  qed simp
  show "created w \<notin> members w"
    using assms n unfolding hub_inv_def by force
qed

lemma set_update_subset: "set (AList.update k v al) \<subseteq> insert (k, v) (set al)"
  by (induction al) auto

lemma serveWs_True:
  "serveWs True w =
     w\<lparr>clients := AList.update (created w) True (clients w),
       Send := (Send w)(created w \<mapsto> make_chan 256),
       created := Suc (created w),
       hlog := Registered (created w) # hlog w\<rparr>"
  by (simp add: serveWs_def Run_Register_def Let_def)

lemma serveWs_hub_inv:
  assumes "hub_inv w"
  shows "hub_inv (serveWs True w)"
proof -
  note f = fresh_client [OF assms]
  let ?w = "serveWs True w"
  have 1: "distinct (map fst (clients ?w))"
    using assms by (simp add: serveWs_True hub_inv_def distinct_update)
  have 2: "\<forall>c \<in> members ?w. \<exists>ch. Send ?w c = Some ch \<and> \<not> closed ch"
    using assms by (auto simp: serveWs_True hub_inv_def dom_update members_def make_chan_def)
  have 3: "\<forall>c ch. Send ?w c = Some ch \<longrightarrow> cap ch = 256 \<and> length (buf ch) \<le> 256 \<and> c < created ?w"
    using assms by (auto simp: serveWs_True hub_inv_def make_chan_def less_Suc_eq)
  have 4: "\<not> closed (broadcast ?w) \<and> cap (broadcast ?w) = 256 \<and> length (buf (broadcast ?w)) \<le> 256"
    using assms by (simp add: serveWs_True hub_inv_def)
  have 5: "\<forall>c. (c, False) \<notin> set (clients ?w)"
  proof
    fix c
    have "(c, False) \<notin> insert (created w, True) (set (clients w))"
      using assms by (simp add: hub_inv_def)
    then show "(c, False) \<notin> set (clients ?w)"
      using set_update_subset [of "created w" True "clients w"] by (auto simp: serveWs_True)
  qed
  from 1 2 3 4 5 show ?thesis unfolding hub_inv_def by blast
qed

lemma serveWs_log_inv:
  assumes "hub_inv w" "log_inv w"
  shows "log_inv (serveWs True w)"
proof -
  note f = fresh_client [OF assms(1)]
  have "Closed (created w) \<notin> set (hlog w)"
    using assms(2) f(1) by (simp add: log_inv_def)
  then show ?thesis
    using assms(2) f
    by (auto simp: serveWs_True log_inv_def members_def dom_update make_chan_def)
qed

lemma serveWs_inv:
  assumes "hub_inv w" "log_inv w"
  shows "hub_inv (serveWs b w) \<and> log_inv (serveWs b w)
         \<and> (\<exists>new. hlog (serveWs b w) = new @ hlog w) \<and> created w \<le> created (serveWs b w)"
proof (cases b)
  case False
  with assms show ?thesis by (simp add: serveWs_def)
next
  case True
  with serveWs_hub_inv [OF assms(1)] serveWs_log_inv [OF assms] show ?thesis
    by (simp add: serveWs_True)
qed


lemma map_of_members: "map_of (clients w) c = None \<longleftrightarrow> c \<notin> members w"
  by (simp add: members_def map_of_eq_None_iff)

lemma Run_unregister_absent:
  assumes "c \<notin> members w"
  shows "Run_unregister c w = Inr (w\<lparr>hlog := Unregistered c # hlog w\<rparr>)"
  using assms by (simp add: Run_unregister_def map_of_members [symmetric])

lemma Run_unregister_member:
  assumes "c \<in> members w" "Send w c = Some ch" "\<not> closed ch"
  shows "Run_unregister c w =
           Inr (w\<lparr>clients := AList.delete c (clients w),
                  Send := (Send w)(c \<mapsto> ch\<lparr>closed := True\<rparr>),
                  hlog := Closed c # Unregistered c # hlog w\<rparr>)"
proof -
  from assms(1) obtain b where "map_of (clients w) c = Some b"
    using map_of_members [of w c] by (cases "map_of (clients w) c") auto
  with assms show ?thesis
    by (simp add: Run_unregister_def close_chan_def)
qed

lemma Run_unregister_inv:
  assumes "hub_inv w" "log_inv w"
  shows "\<exists>w'. Run_unregister c w = Inr w' \<and> hub_inv w' \<and> log_inv w'
           \<and> (\<exists>new. hlog w' = new @ hlog w) \<and> created w' = created w"
proof (cases "c \<in> members w")
  case False
  have "hub_inv (w\<lparr>hlog := Unregistered c # hlog w\<rparr>)"
    using assms(1) by (simp add: hub_inv_def)
  moreover have "log_inv (w\<lparr>hlog := Unregistered c # hlog w\<rparr>)"
    using assms(2) False by (auto simp: log_inv_def)
  ultimately show ?thesis
    by (simp add: Run_unregister_absent [OF False])
next
  case True
  with assms(1) obtain ch where ch: "Send w c = Some ch" "\<not> closed ch"
    by (auto simp: hub_inv_def)
  let ?w = "w\<lparr>clients := AList.delete c (clients w),
                  Send := (Send w)(c \<mapsto> ch\<lparr>closed := True\<rparr>),
                  hlog := Closed c # Unregistered c # hlog w\<rparr>"
  have 1: "distinct (map fst (clients ?w))"
    using assms(1) by (simp add: hub_inv_def distinct_delete)
  have 2: "\<forall>d \<in> members ?w. \<exists>ch. Send ?w d = Some ch \<and> \<not> closed ch"
    using assms(1) by (auto simp: hub_inv_def delete_filter members_def)
  have 3: "\<forall>d ch. Send ?w d = Some ch \<longrightarrow> cap ch = 256 \<and> length (buf ch) \<le> 256 \<and> d < created ?w"
    using assms(1) ch by (auto simp: hub_inv_def)
  have 4: "\<not> closed (broadcast ?w) \<and> cap (broadcast ?w) = 256 \<and> length (buf (broadcast ?w)) \<le> 256"
    using assms(1) by (simp add: hub_inv_def)
  have 5: "\<forall>d. (d, False) \<notin> set (clients ?w)"
    using assms(1) by (auto simp: hub_inv_def delete_filter)
  have h: "hub_inv ?w" using 1 2 3 4 5 unfolding hub_inv_def by blast
  have "Closed c \<notin> set (hlog w)" using assms(2) ch by (auto simp: log_inv_def)
  then have l: "log_inv ?w"
    using assms(2) ch by (auto simp: log_inv_def delete_filter members_def)
  show ?thesis
    using h l by (simp add: Run_unregister_member [OF True ch])
qed

lemma on_nats_msg_inv:
  assumes "hub_inv w" "log_inv w"
  shows "\<exists>w'. on_nats_msg m w = Inr w' \<and> hub_inv w' \<and> log_inv w'
           \<and> hlog w' = hlog w \<and> created w' = created w"
proof (cases "length (buf (broadcast w)) < cap (broadcast w)")
  case True
  with assms show ?thesis
    by (auto simp: on_nats_msg_def send_chan_def hub_inv_def log_inv_def)
next
  case False
  with assms show ?thesis
    by (auto simp: on_nats_msg_def send_chan_def hub_inv_def)
qed

lemma inv_take:
  assumes "hub_inv w" "log_inv w" "buf (broadcast w) = m # ms"
  shows "hub_inv (w\<lparr>broadcast := (broadcast w)\<lparr>buf := ms\<rparr>\<rparr>)"
        "log_inv (w\<lparr>broadcast := (broadcast w)\<lparr>buf := ms\<rparr>\<rparr>)"
  using assms by (auto simp: hub_inv_def log_inv_def)

lemma Run_take_broadcast_inv:
  assumes "hub_inv w" "log_inv w"
  shows "\<exists>w'. Run_take_broadcast w = Inr w' \<and> hub_inv w' \<and> log_inv w'
           \<and> (\<exists>new. hlog w' = new @ hlog w) \<and> created w' = created w"
proof (cases "buf (broadcast w)")
  case Nil
  moreover have "\<not> closed (broadcast w)" using assms(1) by (simp add: hub_inv_def)
  ultimately show ?thesis
    using assms by (simp add: Run_take_broadcast_def recv_chan_def)
next
  case (Cons m ms)
  from Run_broadcast_inv [OF inv_take [OF assms Cons], of m] Cons
  show ?thesis
    by (auto simp: Run_take_broadcast_def recv_chan_def)
qed

lemma session_recv_inv:
  assumes "hub_inv w" "log_inv w"
  shows "hub_inv (session_recv c w) \<and> log_inv (session_recv c w)
         \<and> hlog (session_recv c w) = hlog w \<and> created (session_recv c w) = created w"
proof (cases "Send w c")
  case None
  with assms show ?thesis by (simp add: session_recv_def)
next
  case (Some ch)
  show ?thesis
  proof (cases "buf ch")
    case Nil
    with Some assms show ?thesis by (simp add: session_recv_def recv_chan_def)
  next
    case (Cons m ms)
    let ?w = "w\<lparr>Send := (Send w)(c \<mapsto> ch\<lparr>buf := ms\<rparr>)\<rparr>"
    have e: "session_recv c w = ?w"
      using Some Cons by (simp add: session_recv_def recv_chan_def)
    have 1: "distinct (map fst (clients ?w))"
      using assms(1) by (simp add: hub_inv_def)
    have 2: "\<forall>d \<in> members ?w. \<exists>ch. Send ?w d = Some ch \<and> \<not> closed ch"
      using assms(1) Some by (auto simp: hub_inv_def)
    from assms(1) Some Cons have "cap ch = 256 \<and> Suc (length ms) \<le> 256 \<and> c < created w"
      unfolding hub_inv_def by fastforce
    then have 3: "\<forall>d ch. Send ?w d = Some ch \<longrightarrow> cap ch = 256 \<and> length (buf ch) \<le> 256 \<and> d < created ?w"
      using assms(1) by (auto simp: hub_inv_def)
    have 4: "\<not> closed (broadcast ?w) \<and> cap (broadcast ?w) = 256 \<and> length (buf (broadcast ?w)) \<le> 256"
      using assms(1) by (simp add: hub_inv_def)
    have 5: "\<forall>d. (d, False) \<notin> set (clients ?w)"
      using assms(1) by (auto simp: hub_inv_def)
    have h: "hub_inv ?w" using 1 2 3 4 5 unfolding hub_inv_def by blast
    have l: "log_inv ?w"
      using assms(2) Some by (auto simp: log_inv_def)
    show ?thesis using h l by (simp add: e)
  qed
qed

lemma step_inv:
  assumes "hub_inv w" "log_inv w"
  shows "\<exists>w'. step e w = Inr w' \<and> hub_inv w' \<and> log_inv w'
           \<and> (\<exists>new. hlog w' = new @ hlog w) \<and> created w \<le> created w'"
proof (cases e)
  case (ServeWs b)
  with serveWs_inv [OF assms, of b] show ?thesis by simp
next
  case (Unregister c)
  with Run_unregister_inv [OF assms, of c] show ?thesis by auto
next
  case (NatsMsg m)
  with on_nats_msg_inv [OF assms, of m] show ?thesis by auto
next
  case HubBroadcast
  with Run_take_broadcast_inv [OF assms] show ?thesis by auto
next
  case (SessionRecv c)
  with session_recv_inv [OF assms, of c] show ?thesis by simp
qed

lemma run_inv:
  assumes "hub_inv w" "log_inv w"
  shows "\<exists>w'. run es w = Inr w' \<and> hub_inv w' \<and> log_inv w'
           \<and> (\<exists>new. hlog w' = new @ hlog w) \<and> created w \<le> created w'"
  using assms
proof (induction es arbitrary: w)
  case Nil
  then show ?case by simp
next
  case (Cons e es)
  from step_inv [OF Cons.prems, of e] obtain w1 new1 where
    w1: "step e w = Inr w1" "hub_inv w1" "log_inv w1" "hlog w1 = new1 @ hlog w"
        "created w \<le> created w1"
    by blast
  from Cons.IH [OF w1(2,3)] obtain w2 new2 where
    "run es w1 = Inr w2" "hub_inv w2" "log_inv w2" "hlog w2 = new2 @ hlog w1"
    "created w1 \<le> created w2"
    by blast
  with w1 show ?case by simp
qed

lemma boot_inv: "hub_inv boot" "log_inv boot"
  by (simp_all add: hub_inv_def log_inv_def boot_def NewHub_def make_chan_def members_def)

subsection \<open>Runs from the initial state\<close>

lemma reachable_inv:
  assumes "run es boot = Inr w"
  shows "hub_inv w" "log_inv w"
  using run_inv [OF boot_inv, of es] assms by auto

lemma attempt_room: "length (buf ch) < cap ch \<Longrightarrow> attempt m ch = ch\<lparr>buf := buf ch @ [m]\<rparr>"
  by (simp add: attempt_def)

lemma attempt_full: "\<not> length (buf ch) < cap ch \<Longrightarrow> attempt m ch = ch\<lparr>closed := True\<rparr>"
  by (simp add: attempt_def)

lemma Run_broadcast_healthy:
  assumes "hub_inv w" "log_inv w" "\<forall>c \<in> members w. has_room w c"
  shows "\<exists>w'. Run_broadcast m w = Inr w' \<and> hub_inv w' \<and> log_inv w'
           \<and> clients w' = clients w
           \<and> Send w' = (\<lambda>d. if d \<in> members w
                              then map_option (\<lambda>ch. ch\<lparr>buf := buf ch @ [m]\<rparr>) (Send w d)
                              else Send w d)
           \<and> created w' = created w \<and> broadcast w' = broadcast w"
proof -
  from Run_broadcast_inv [OF assms(1,2), of m] obtain w' where
    w': "Run_broadcast m w = Inr w'" "hub_inv w'" "log_inv w'"
        "clients w' = filter (\<lambda>p. has_room w (fst p)) (clients w)"
        "Send w' = (\<lambda>d. if d \<in> members w then map_option (attempt m) (Send w d) else Send w d)"
        "created w' = created w" "broadcast w' = broadcast w"
    by blast
  have "filter (\<lambda>p. has_room w (fst p)) (clients w) = clients w"
    using assms(3) by (auto simp: members_def filter_id_conv)
  moreover have "map_option (attempt m) (Send w d) = map_option (\<lambda>ch. ch\<lparr>buf := buf ch @ [m]\<rparr>) (Send w d)"
    if "d \<in> members w" for d
    using assms(3) that by (cases "Send w d") (auto simp: has_room_def attempt_room)
  ultimately show ?thesis using w' by (auto simp: fun_eq_iff)
qed

lemma broadcasts_append:
  assumes "hub_inv w" "log_inv w" "buf (broadcast w) = ms @ rest"
    and "\<forall>c \<in> members w. \<exists>ch. Send w c = Some ch \<and> length (buf ch) + length ms \<le> cap ch"
  shows "\<exists>w'. run (replicate (length ms) HubBroadcast) w = Inr w' \<and> hub_inv w' \<and> log_inv w'
           \<and> clients w' = clients w
           \<and> Send w' = (\<lambda>d. if d \<in> members w
                              then map_option (\<lambda>ch. ch\<lparr>buf := buf ch @ ms\<rparr>) (Send w d)
                              else Send w d)
           \<and> created w' = created w \<and> broadcast w' = (broadcast w)\<lparr>buf := rest\<rparr>"
  using assms
proof (induction ms arbitrary: w)
  case Nil
  then show ?case
    by (cases "broadcast w") (auto simp: fun_eq_iff option.map_ident map_option_case split: option.splits)
next
  case (Cons m ms)
  let ?w0 = "w\<lparr>broadcast := (broadcast w)\<lparr>buf := ms @ rest\<rparr>\<rparr>"
  from Cons.prems(3) have b: "buf (broadcast w) = m # (ms @ rest)" by simp
  note inv0 = inv_take [OF Cons.prems(1,2) b]
  have room0: "\<forall>c \<in> members ?w0. has_room ?w0 c"
    using Cons.prems(4) by (fastforce simp: has_room_def)
  from Run_broadcast_healthy [OF inv0 room0, of m] obtain w1 where
    r1: "Run_broadcast m ?w0 = Inr w1 \<and> hub_inv w1 \<and> log_inv w1
           \<and> clients w1 = clients ?w0
           \<and> Send w1 = (\<lambda>d. if d \<in> members ?w0
                              then map_option (\<lambda>ch. ch\<lparr>buf := buf ch @ [m]\<rparr>) (Send ?w0 d)
                              else Send ?w0 d)
           \<and> created w1 = created ?w0 \<and> broadcast w1 = broadcast ?w0"
    by blast
  then have
    w1: "Run_broadcast m ?w0 = Inr w1" "hub_inv w1" "log_inv w1" "clients w1 = clients w"
        "Send w1 = (\<lambda>d. if d \<in> members w
                              then map_option (\<lambda>ch. ch\<lparr>buf := buf ch @ [m]\<rparr>) (Send w d)
                              else Send w d)"
        "created w1 = created w" "broadcast w1 = (broadcast w)\<lparr>buf := ms @ rest\<rparr>"
    by (simp_all cong: if_cong)
  have st: "step HubBroadcast w = Inr w1"
    using b w1(1) by (simp add: Run_take_broadcast_def recv_chan_def)
  have m1: "members w1 = members w" by (simp add: members_def w1(4))
  have b1: "buf (broadcast w1) = ms @ rest" by (simp add: w1(7))
  have room1: "\<forall>c \<in> members w1. \<exists>ch. Send w1 c = Some ch \<and> length (buf ch) + length ms \<le> cap ch"
    using Cons.prems(4) by (fastforce simp: m1 w1(5))
  from Cons.IH [OF w1(2,3) b1 room1] obtain w2 where
    w2: "run (replicate (length ms) HubBroadcast) w1 = Inr w2" "hub_inv w2" "log_inv w2"
        "clients w2 = clients w1"
        "Send w2 = (\<lambda>d. if d \<in> members w1
                              then map_option (\<lambda>ch. ch\<lparr>buf := buf ch @ ms\<rparr>) (Send w1 d)
                              else Send w1 d)"
        "created w2 = created w1" "broadcast w2 = (broadcast w1)\<lparr>buf := rest\<rparr>"
    by blast
  have sn: "Send w2 = (\<lambda>d. if d \<in> members w
                              then map_option (\<lambda>ch. ch\<lparr>buf := buf ch @ m # ms\<rparr>) (Send w d)
                              else Send w d)"
    unfolding w2(5) m1 w1(5) by (auto simp: fun_eq_iff option.map_comp comp_def)
  show ?case
    using st w2 sn w1 by simp
qed

lemma no_use_append:
  assumes "no_use_after_close (new @ old)" "Closed c \<in> set old"
  shows "Closed c \<notin> set new \<and> Pushed c m \<notin> set new"
  using assms
proof (induction new)
  case Nil
  then show ?case by simp
next
  case (Cons a new)
  then show ?case by (cases a) auto
qed

text \<open>Membership grows only by \<^verbatim>\<open>serveWs\<close>, which registers a new client.\<close>

lemma step_members:
  assumes "hub_inv w" "log_inv w" "step e w = Inr w'"
  shows "members w' \<subseteq> insert (created w) (members w)"
proof (cases e)
  case (ServeWs b)
  have "members (serveWs True w) = insert (created w) (members w)"
    by (simp add: serveWs_True members_def dom_update)
  moreover have "serveWs False w = w" by (simp add: serveWs_def)
  ultimately show ?thesis
    using assms(3) ServeWs by (cases b) auto
next
  case (Unregister c)
  show ?thesis
  proof (cases "c \<in> members w")
    case False
    with assms(3) Unregister show ?thesis by (auto simp: Run_unregister_absent)
  next
    case True
    with assms(1) obtain ch where "Send w c = Some ch" "\<not> closed ch"
      unfolding hub_inv_def by blast
    with assms(3) Unregister Run_unregister_member [OF True this] show ?thesis
      by (auto simp: delete_filter members_def)
  qed
next
  case (NatsMsg m)
  with assms(3) show ?thesis
    by (auto simp: on_nats_msg_def members_def split: sum.splits option.splits)
next
  case HubBroadcast
  show ?thesis
  proof (cases "buf (broadcast w)")
    case Nil
    moreover have "\<not> closed (broadcast w)" using assms(1) by (simp add: hub_inv_def)
    ultimately show ?thesis
      using assms(3) HubBroadcast by (auto simp: Run_take_broadcast_def recv_chan_def)
  next
    case (Cons m ms)
    from Run_broadcast_inv [OF inv_take [OF assms(1,2) Cons], of m] assms(3) HubBroadcast Cons
    show ?thesis
      by (auto simp: Run_take_broadcast_def recv_chan_def members_def)
  qed
next
  case (SessionRecv c)
  with assms(3) show ?thesis
    by (auto simp: session_recv_def members_def split: option.splits recv.splits)
qed

lemma stays_out:
  assumes "hub_inv w" "log_inv w" "c \<notin> members w" "c < created w"
  shows "\<exists>w'. run es w = Inr w' \<and> c \<notin> members w'"
  using assms
proof (induction es arbitrary: w)
  case Nil
  then show ?case by simp
next
  case (Cons e es)
  from step_inv [OF Cons.prems(1,2), of e] obtain w1 where
    w1: "step e w = Inr w1" "hub_inv w1" "log_inv w1" "created w \<le> created w1"
    by blast
  from step_members [OF Cons.prems(1,2) w1(1)] Cons.prems(3,4)
  have "c \<notin> members w1" by auto
  moreover from Cons.prems(4) w1(4) have "c < created w1" by simp
  ultimately show ?case
    using Cons.IH [OF w1(2,3)] w1(1) by simp
qed

lemma unregister_removes:
  assumes "hub_inv w" "log_inv w"
  shows "\<exists>w'. step (Unregister c) w = Inr w' \<and> hub_inv w' \<and> log_inv w'
           \<and> c \<notin> members w' \<and> created w' = created w"
proof (cases "c \<in> members w")
  case False
  with Run_unregister_inv [OF assms, of c] show ?thesis
    by (auto simp: Run_unregister_absent)
next
  case True
  with assms(1) obtain ch where ch: "Send w c = Some ch" "\<not> closed ch"
    unfolding hub_inv_def by blast
  from Run_unregister_inv [OF assms, of c] Run_unregister_member [OF True ch]
  show ?thesis
    by (auto simp: delete_filter members_def)
qed

subsection \<open>Runs with arbitrary register requests\<close>

lemma log_inv_frame:
  assumes "log_inv w" "clients w' = clients w" "hlog w' = hlog w"
    and "\<forall>c. (\<exists>ch. Send w' c = Some ch \<and> closed ch) \<longleftrightarrow> (\<exists>ch. Send w c = Some ch \<and> closed ch)"
  shows "log_inv w'"
  using assms by (simp add: log_inv_def members_def)

lemma deliver_open:
  assumes "open_inv w" "deliver m c w = Inr w'"
  shows "open_inv w'"
proof (cases "Send w c")
  case None
  with assms(2) show ?thesis by (simp add: deliver_def)
next
  case (Some ch)
  with assms(2) have o: "\<not> closed ch"
    by (auto simp: deliver_def send_chan_def split: if_splits)
  from assms(1) have l: "log_inv w" and d: "distinct (map fst (clients w))"
    and a: "\<forall>c ch. Send w c = Some ch \<longrightarrow> c < created w"
    by (simp_all add: open_inv_def)
  show ?thesis
  proof (cases "length (buf ch) < cap ch")
    case True
    with assms(2) deliver_member [OF Some o, of m]
    have e: "w' = w\<lparr>Send := (Send w)(c \<mapsto> attempt m ch), hlog := Pushed c m # hlog w\<rparr>"
      by simp
    from log_inv_push [OF l Some o True, of m] d a Some show ?thesis
      unfolding e open_inv_def by auto
  next
    case False
    with assms(2) deliver_member [OF Some o, of m]
    have e: "w' = w\<lparr>clients := AList.delete c (clients w),
                    Send := (Send w)(c \<mapsto> attempt m ch), hlog := Closed c # hlog w\<rparr>"
      by simp
    from log_inv_shed [OF l Some o False, of m] d a Some show ?thesis
      unfolding e open_inv_def by (auto simp: distinct_delete)
  qed
qed

lemma fan_out_open:
  assumes "open_inv w" "fan_out m cs w = Inr w'"
  shows "open_inv w'"
  using assms
proof (induction cs arbitrary: w)
  case Nil
  then show ?case by simp
next
  case (Cons c cs)
  from Cons.prems(2) obtain w1 where
    w1: "deliver m c w = Inr w1" "fan_out m cs w1 = Inr w'"
    by (auto split: sum.splits)
  from Cons.IH [OF deliver_open [OF Cons.prems(1) w1(1)] w1(2)] show ?case .
qed

lemma open_inv_broadcast_field:
  "open_inv w \<Longrightarrow> open_inv (w\<lparr>broadcast := b\<rparr>)"
  by (simp add: open_inv_def log_inv_def)

lemma Run_Register_open:
  assumes "open_inv w"
  shows "open_inv (Run_Register c w)"
  using assms
  by (auto simp: open_inv_def log_inv_def Run_Register_def distinct_update members_def dom_update)

lemma serveWs_open:
  assumes "open_inv w"
  shows "open_inv (serveWs b w)"
proof (cases b)
  case False
  with assms show ?thesis by (simp add: serveWs_def)
next
  case True
  let ?w = "w\<lparr>Send := (Send w)(created w \<mapsto> make_chan 256), created := Suc (created w)\<rparr>"
  from assms have n: "Send w (created w) = None"
    unfolding open_inv_def by (cases "Send w (created w)") auto
  with assms have "Closed (created w) \<notin> set (hlog w)"
    by (simp add: open_inv_def log_inv_def)
  with assms n have "open_inv ?w"
    by (auto simp: open_inv_def log_inv_def make_chan_def less_Suc_eq)
  from Run_Register_open [OF this, of "created w"] True show ?thesis
    by (simp add: serveWs_def Let_def)
qed

lemma Run_unregister_open:
  assumes "open_inv w" "Run_unregister c w = Inr w'"
  shows "open_inv w'"
proof (cases "c \<in> members w")
  case False
  with assms(2) have "w' = w\<lparr>hlog := Unregistered c # hlog w\<rparr>"
    by (simp add: Run_unregister_absent)
  with assms(1) False show ?thesis
    by (auto simp: open_inv_def log_inv_def)
next
  case True
  then obtain b where b: "map_of (clients w) c = Some b"
    using map_of_members [of w c] by (cases "map_of (clients w) c") auto
  with assms(2) obtain ch where ch: "Send w c = Some ch" "\<not> closed ch"
    by (auto simp: Run_unregister_def close_chan_def split: option.splits if_splits)
  with assms(2) Run_unregister_member [OF True ch]
  have e: "w' = w\<lparr>clients := AList.delete c (clients w),
                  Send := (Send w)(c \<mapsto> ch\<lparr>closed := True\<rparr>),
                  hlog := Closed c # Unregistered c # hlog w\<rparr>"
    by simp
  from assms(1) ch have "Closed c \<notin> set (hlog w)" by (auto simp: open_inv_def log_inv_def)
  with assms(1) ch show ?thesis
    unfolding e open_inv_def log_inv_def
    by (auto simp: distinct_map_filter delete_filter members_def)
qed

lemma session_recv_open:
  assumes "open_inv w"
  shows "open_inv (session_recv c w)"
proof (cases "Send w c")
  case None
  with assms show ?thesis by (simp add: session_recv_def)
next
  case (Some ch)
  show ?thesis
  proof (cases "buf ch")
    case Nil
    with Some assms show ?thesis by (simp add: session_recv_def recv_chan_def)
  next
    case (Cons m ms)
    with Some have "session_recv c w = w\<lparr>Send := (Send w)(c \<mapsto> ch\<lparr>buf := ms\<rparr>)\<rparr>"
      by (simp add: session_recv_def recv_chan_def)
    with assms Some show ?thesis
      by (auto simp: open_inv_def log_inv_def)
  qed
qed

lemma step_open:
  assumes "open_inv w" "step e w = Inr w'"
  shows "open_inv w'"
proof (cases e)
  case (ServeWs b)
  with assms serveWs_open [of w b] show ?thesis by auto
next
  case (Unregister c)
  with assms Run_unregister_open [of w c w'] show ?thesis by simp
next
  case (NatsMsg m)
  with assms open_inv_broadcast_field [of w] show ?thesis
    by (auto simp: on_nats_msg_def split: sum.splits option.splits)
next
  case HubBroadcast
  with assms open_inv_broadcast_field [of w] show ?thesis
    by (auto simp: Run_take_broadcast_def Run_broadcast_def split: recv.splits
             intro: fan_out_open)
next
  case (SessionRecv c)
  with assms session_recv_open [of w c] show ?thesis by auto
qed

lemma run_open_inv:
  assumes "open_inv w" "run_open rs w = Inr w'"
  shows "open_inv w'"
  using assms
proof (induction rs arbitrary: w)
  case Nil
  then show ?case by simp
next
  case (Cons r rs)
  from Cons.prems(2) obtain w1 where
    w1: "handle r w = Inr w1" "run_open rs w1 = Inr w'"
    by (auto split: sum.splits)
  have "open_inv w1"
  proof (cases r)
    case (Gateway e)
    with w1(1) step_open [OF Cons.prems(1)] show ?thesis by simp
  next
    case (Register c)
    with w1(1) Run_Register_open [OF Cons.prems(1), of c] show ?thesis by auto
  qed
  from Cons.IH [OF this w1(2)] show ?case .
qed

lemma boot_open: "open_inv boot"
  using boot_inv by (simp add: open_inv_def hub_inv_def boot_def)

lemma run_open_Gateway: "run_open (map Gateway es) w = run es w"
  by (induction es arbitrary: w) (auto split: sum.splits)

subsection \<open>Concrete runs\<close>

lemmas eval_defs =
  boot_def NewHub_def serveWs_def Run_Register_def Run_unregister_def deliver_def
  Run_broadcast_def on_nats_msg_def Run_take_broadcast_def session_recv_def
  send_chan_def close_chan_def recv_chan_def make_chan_def members_def has_room_def Let_def

lemma run_append:
  "run (xs @ ys) w = (case run xs w of Inl p \<Rightarrow> Inl p | Inr w' \<Rightarrow> run ys w')"
  by (induction xs arbitrary: w) (auto split: sum.splits)

lemma nats_fill:
  assumes "\<not> closed (broadcast w)" "length (buf (broadcast w)) + n \<le> cap (broadcast w)"
  shows "run (replicate n (NatsMsg m)) w =
           Inr (w\<lparr>broadcast := (broadcast w)\<lparr>buf := buf (broadcast w) @ replicate n m\<rparr>\<rparr>)"
  using assms
proof (induction n arbitrary: w)
  case 0
  then show ?case by simp
next
  case (Suc n)
  let ?w = "w\<lparr>broadcast := (broadcast w)\<lparr>buf := buf (broadcast w) @ [m]\<rparr>\<rparr>"
  have s: "step (NatsMsg m) w = Inr ?w"
    using Suc.prems by (simp add: on_nats_msg_def send_chan_def)
  have "run (replicate n (NatsMsg m)) ?w =
           Inr (?w\<lparr>broadcast := (broadcast ?w)\<lparr>buf := buf (broadcast ?w) @ replicate n m\<rparr>\<rparr>)"
    using Suc.prems by (intro Suc.IH) simp_all
  with s show ?case by (simp add: replicate_app_Cons_same)
qed

lemma fill_scenario:
  "\<exists>w. run (ServeWs True # replicate 256 (NatsMsg m) @ replicate 256 HubBroadcast) boot = Inr w
       \<and> clients w = [(0, True)]
       \<and> Send w 0 = Some \<lparr>buf = replicate 256 m, cap = 256, closed = False\<rparr>
       \<and> broadcast w = make_chan 256"
proof -
  let ?w0 = "serveWs True boot"
  let ?w1 = "?w0\<lparr>broadcast := (broadcast ?w0)\<lparr>buf := buf (broadcast ?w0) @ replicate 256 m\<rparr>\<rparr>"
  have r0: "run [ServeWs True] boot = Inr ?w0" by simp
  have r1: "run (replicate 256 (NatsMsg m)) ?w0 = Inr ?w1"
    by (rule nats_fill) (simp_all add: eval_defs)
  have r01: "run (ServeWs True # replicate 256 (NatsMsg m)) boot = Inr ?w1"
    using r1 by simp
  note inv = reachable_inv [OF r01]
  have b: "buf (broadcast ?w1) = replicate 256 m @ []" by (simp add: eval_defs)
  have room: "\<forall>c \<in> members ?w1. \<exists>ch. Send ?w1 c = Some ch
                 \<and> length (buf ch) + length (replicate 256 m) \<le> cap ch"
    by (simp add: eval_defs)
  from broadcasts_append [OF inv b room] obtain w2 where
    w2: "run (replicate (length (replicate 256 m)) HubBroadcast) ?w1 = Inr w2"
        "clients w2 = clients ?w1"
        "Send w2 = (\<lambda>d. if d \<in> members ?w1
                              then map_option (\<lambda>ch. ch\<lparr>buf := buf ch @ replicate 256 m\<rparr>) (Send ?w1 d)
                              else Send ?w1 d)"
        "broadcast w2 = (broadcast ?w1)\<lparr>buf := []\<rparr>"
    by blast
  have "run (ServeWs True # replicate 256 (NatsMsg m) @ replicate 256 HubBroadcast) boot = Inr w2"
    using r01 w2(1) run_append [of "ServeWs True # replicate 256 (NatsMsg m)" "replicate 256 HubBroadcast" boot]
    by simp
  moreover have "clients w2 = [(0, True)]" by (simp add: w2(2) eval_defs)
  moreover have "Send w2 0 = Some \<lparr>buf = replicate 256 m, cap = 256, closed = False\<rparr>"
    by (simp add: w2(3) eval_defs)
  moreover have "broadcast w2 = make_chan 256" by (simp add: w2(4) eval_defs)
  ultimately show ?thesis by blast
qed

lemma overflow_scenario:
  "\<exists>w1 w2. run (ServeWs True # replicate 256 (NatsMsg m) @ replicate 256 HubBroadcast) boot = Inr w1
       \<and> clients w1 = [(0, True)]
       \<and> Send w1 0 = Some \<lparr>buf = replicate 256 m, cap = 256, closed = False\<rparr>
       \<and> run [NatsMsg m', HubBroadcast] w1 = Inr w2
       \<and> clients w2 = []
       \<and> Send w2 0 = Some \<lparr>buf = replicate 256 m, cap = 256, closed = True\<rparr>"
proof -
  from fill_scenario [of m] obtain w1 where
    w1: "run (ServeWs True # replicate 256 (NatsMsg m) @ replicate 256 HubBroadcast) boot = Inr w1"
       "clients w1 = [(0, True)]"
       "Send w1 0 = Some \<lparr>buf = replicate 256 m, cap = 256, closed = False\<rparr>"
       "broadcast w1 = make_chan 256"
    by blast
  have "\<exists>w2. run [NatsMsg m', HubBroadcast] w1 = Inr w2 \<and> clients w2 = []
       \<and> Send w2 0 = Some \<lparr>buf = replicate 256 m, cap = 256, closed = True\<rparr>"
    by (simp add: w1(2,3,4) on_nats_msg_def Run_take_broadcast_def Run_broadcast_def deliver_def
                  send_chan_def close_chan_def recv_chan_def make_chan_def)
  with w1 show ?thesis by blast
qed

text \<open>
  Registering again a client whose channel the hub has closed makes the next broadcast
  panic; \<^verbatim>\<open>serveWs\<close> never does so.
\<close>

lemma reregistration_panics:
  "run_open [Gateway (ServeWs True), Gateway (Unregister 0), Register 0,
             Gateway (NatsMsg ''a''), Gateway HubBroadcast] boot
     = Inl SendOnClosedChannel"
  by (simp add: eval_defs)

subsection \<open>The session loops\<close>

lemma coalesce_all:
  "buf ch = xs \<Longrightarrow>
     coalesce (length xs) ch w = (w @ concat (map ((#) newline) xs), ch\<lparr>buf := []\<rparr>)"
proof (induction xs arbitrary: ch w)
  case Nil
  then show ?case by simp
next
  case (Cons x xs)
  have "coalesce (length xs) (ch\<lparr>buf := xs\<rparr>) (w @ [newline] @ x)
          = ((w @ [newline] @ x) @ concat (map ((#) newline) xs), ch\<lparr>buf := xs\<rparr>\<lparr>buf := []\<rparr>)"
    by (rule Cons.IH) simp
  with Cons.prems show ?case by (simp add: recv_chan_def)
qed

lemma join_newline_Cons:
  "join_newline (p # ps) = p @ concat (map ((#) newline) ps)"
  by (induction ps arbitrary: p) simp_all

lemma write_message_case_frame:
  assumes "write_message_case t s = (c, s')"
  shows "conn_closed s' = conn_closed s \<and> ticker_stopped s' = ticker_stopped s
       \<and> unregister_sends s' = unregister_sends s \<and> read_running s' = read_running s
       \<and> write_running s' = write_running s"
  using assms
  by (auto simp: write_message_case_def split: recv.splits if_splits prod.splits)

lemma write_ticker_case_frame:
  assumes "write_ticker_case t s = (c, s')"
  shows "conn_closed s' = conn_closed s \<and> ticker_stopped s' = ticker_stopped s
       \<and> unregister_sends s' = unregister_sends s \<and> read_running s' = read_running s
       \<and> write_running s' = write_running s"
  using assms
  by (auto simp: write_ticker_case_def split: if_splits)

lemma write_turn_cases:
  "\<exists>c s'. (case k of SendReady t \<Rightarrow> write_message_case t s | TickerFired t \<Rightarrow> write_ticker_case t s) = (c, s')
     \<and> conn_closed s' = conn_closed s \<and> ticker_stopped s' = ticker_stopped s
     \<and> unregister_sends s' = unregister_sends s \<and> read_running s' = read_running s
     \<and> write_running s' = write_running s"
proof (cases k)
  case (SendReady t)
  obtain c s' where e: "write_message_case t s = (c, s')" by (cases "write_message_case t s")
  with write_message_case_frame [OF e] SendReady show ?thesis by simp
next
  case (TickerFired t)
  obtain c s' where e: "write_ticker_case t s = (c, s')" by (cases "write_ticker_case t s")
  with write_ticker_case_frame [OF e] TickerFired show ?thesis by simp
qed

lemma write_turn_fields:
  "unregister_sends (WriteMsgToWebSocket_turn k s) = unregister_sends s
   \<and> read_running (WriteMsgToWebSocket_turn k s) = read_running s
   \<and> (conn_closed s \<longrightarrow> conn_closed (WriteMsgToWebSocket_turn k s))
   \<and> (\<not> write_running (WriteMsgToWebSocket_turn k s) \<longrightarrow>
         \<not> write_running s \<or>
         (conn_closed (WriteMsgToWebSocket_turn k s) \<and> ticker_stopped (WriteMsgToWebSocket_turn k s)))
   \<and> (\<not> write_running s \<longrightarrow> WriteMsgToWebSocket_turn k s = s)"
proof -
  from write_turn_cases [where k = k and s = s] obtain c s' where
    e: "(case k of SendReady t \<Rightarrow> write_message_case t s | TickerFired t \<Rightarrow> write_ticker_case t s) = (c, s')"
       "conn_closed s' = conn_closed s" "ticker_stopped s' = ticker_stopped s"
       "unregister_sends s' = unregister_sends s" "read_running s' = read_running s"
       "write_running s' = write_running s"
    by blast
  show ?thesis
    using e by (cases c) (simp_all add: WriteMsgToWebSocket_turn_def write_deferred_def)
qed

lemma session_step_ok:
  assumes "loops_ok s"
  shows "loops_ok (session_step e s)"
proof (cases e)
  case (WriteWakes k)
  with assms write_turn_fields [where k = k and s = s] show ?thesis
    by (auto simp: loops_ok_def)
next
  case (ReadReturns peer)
  with assms show ?thesis
    by (auto simp: loops_ok_def ReadMsgFromWebSocket_turn_def ReadMessage_def read_deferred_def
             split: read_result.splits)
qed

lemma session_run_ok: "loops_ok s \<Longrightarrow> loops_ok (session_run es s)"
  by (induction es arbitrary: s) (simp_all add: session_step_ok)

lemma writes_only:
  assumes "list_all is_write_event es"
  shows "unregister_sends (session_run es s) = unregister_sends s
       \<and> read_running (session_run es s) = read_running s"
  using assms
proof (induction es arbitrary: s)
  case Nil
  then show ?case by simp
next
  case (Cons e es)
  then obtain k where k: "e = WriteWakes k" by (cases e) auto
  from Cons.prems have "list_all is_write_event es" by simp
  from Cons.IH [OF this, of "session_step e s"] write_turn_fields [where k = k and s = s] k
  show ?case by simp
qed

subsection \<open>Claims\<close>

text \<open>
  Claim C8. The pong-wait window is exactly 60 seconds; the ping period is nine tenths of
  it, which is 54 seconds and strictly less than the pong-wait window; the per-write
  deadline is exactly 10 seconds. All three fit Go's 64-bit duration.
\<close>

theorem keepalive_timing_constants:
  "pongWait = 60 * Second
   \<and> pongWait = 60000000000
   \<and> 10 * pingPeriod = 9 * pongWait
   \<and> pingPeriod = 54 * Second
   \<and> pingPeriod < pongWait
   \<and> writeWait = 10 * Second
   \<and> writeWait = 10000000000
   \<and> 0 < pingPeriod \<and> pongWait < 2 ^ 63"
  by (simp add: duration_defs signed_divide_int_def)

text \<open>
  Claim C1. In a reachable state whose intake holds the payloads \<open>ms\<close> at its front, and
  where every member's channel has room for all of them, handling \<open>length ms\<close>
  broadcasts leaves the registry as it was and appends \<open>ms\<close>, in the order of the intake,
  to the pending elements of every member's channel; channels of other clients are
  untouched. With \<open>ms\<close> a single payload this is one broadcast to members none of whose
  channels is full.
\<close>

theorem fan_out_completeness:
  assumes "run es boot = Inr w"
    and "buf (broadcast w) = ms @ rest"
    and "\<forall>c \<in> members w. \<exists>ch. Send w c = Some ch \<and> length (buf ch) + length ms \<le> cap ch"
  shows "\<exists>w'. run (replicate (length ms) HubBroadcast) w = Inr w'
           \<and> clients w' = clients w
           \<and> (\<forall>c \<in> members w. \<exists>ch. Send w c = Some ch \<and> \<not> closed ch
                  \<and> Send w' c = Some (ch\<lparr>buf := buf ch @ ms\<rparr>))
           \<and> (\<forall>c. c \<notin> members w \<longrightarrow> Send w' c = Send w c)
           \<and> buf (broadcast w') = rest"
proof -
  note inv = reachable_inv [OF assms(1)]
  from broadcasts_append [OF inv assms(2,3)] obtain w' where
    w': "run (replicate (length ms) HubBroadcast) w = Inr w'" "clients w' = clients w"
        "Send w' = (\<lambda>d. if d \<in> members w
                              then map_option (\<lambda>ch. ch\<lparr>buf := buf ch @ ms\<rparr>) (Send w d)
                              else Send w d)"
        "broadcast w' = (broadcast w)\<lparr>buf := rest\<rparr>"
    by blast
  have "\<exists>ch. Send w c = Some ch \<and> \<not> closed ch \<and> Send w' c = Some (ch\<lparr>buf := buf ch @ ms\<rparr>)"
    if "c \<in> members w" for c
  proof -
    from inv(1) that obtain ch where "Send w c = Some ch" "\<not> closed ch"
      unfolding hub_inv_def by blast
    with that show ?thesis by (simp add: w'(3))
  qed
  with w' show ?thesis by simp
qed

theorem fan_out_completeness_witness:
  "\<exists>w w'. run [ServeWs True, ServeWs True, NatsMsg ''a'', NatsMsg ''b''] boot = Inr w
     \<and> members w = {0, 1}
     \<and> buf (broadcast w) = [''a'', ''b'']
     \<and> Send w 0 = Some (make_chan 256) \<and> Send w 1 = Some (make_chan 256)
     \<and> run [HubBroadcast, HubBroadcast] w = Inr w'
     \<and> clients w' = clients w
     \<and> Send w' 0 = Some \<lparr>buf = [''a'', ''b''], cap = 256, closed = False\<rparr>
     \<and> Send w' 1 = Some \<lparr>buf = [''a'', ''b''], cap = 256, closed = False\<rparr>"
proof -
  have "\<exists>w. run [ServeWs True, ServeWs True, NatsMsg ''a'', NatsMsg ''b''] boot = Inr w
     \<and> members w = {0, 1}
     \<and> buf (broadcast w) = [''a'', ''b''] @ []
     \<and> Send w 0 = Some (make_chan 256) \<and> Send w 1 = Some (make_chan 256)"
    by (simp add: eval_defs insert_commute)
  then obtain w where
    w: "run [ServeWs True, ServeWs True, NatsMsg ''a'', NatsMsg ''b''] boot = Inr w"
       "members w = {0, 1}" "buf (broadcast w) = [''a'', ''b''] @ []"
       "Send w 0 = Some (make_chan 256)" "Send w 1 = Some (make_chan 256)"
    by blast
  have room: "\<forall>c \<in> members w. \<exists>ch. Send w c = Some ch
                 \<and> length (buf ch) + length [''a'', ''b''] \<le> cap ch"
    using w(2,4,5) by (simp add: make_chan_def)
  from fan_out_completeness [OF w(1,3) room] obtain w' where
    w': "run (replicate (length [''a'', ''b'']) HubBroadcast) w = Inr w'"
        "clients w' = clients w"
        "\<forall>c \<in> members w. \<exists>ch. Send w c = Some ch \<and> \<not> closed ch
                  \<and> Send w' c = Some (ch\<lparr>buf := buf ch @ [''a'', ''b'']\<rparr>)"
    by blast
  from w'(3) w(2,4,5)
  have "Send w' 0 = Some \<lparr>buf = [''a'', ''b''], cap = 256, closed = False\<rparr>"
       "Send w' 1 = Some \<lparr>buf = [''a'', ''b''], cap = 256, closed = False\<rparr>"
    by (auto simp: make_chan_def)
  moreover from w'(1) have "run [HubBroadcast, HubBroadcast] w = Inr w'"
    by (simp add: numeral_2_eq_2)
  ultimately show ?thesis using w w'(2) by auto
qed

text \<open>
  Claim C2. In a reachable state with a payload waiting in the intake, the broadcast that
  \<^verbatim>\<open>Run\<close> takes next, finding a member's channel full, closes that channel (the
  payload is not stored) and deletes the member; and after any further
  steps of the gateway the client is still not a member, and the history gained no push
  into its channel and no second close of it: no later broadcast visits it.
\<close>

theorem shed_invariant:
  assumes "run es boot = Inr w" and "buf (broadcast w) = m # rest"
    and "c \<in> members w" and "\<not> has_room w c"
  shows "\<exists>w' ch. step HubBroadcast w = Inr w'
           \<and> Send w c = Some ch \<and> \<not> closed ch
           \<and> Send w' c = Some (ch\<lparr>closed := True\<rparr>)
           \<and> c \<notin> members w'
           \<and> (\<forall>es'. \<exists>w'' new. run es' w' = Inr w''
                  \<and> c \<notin> members w''
                  \<and> hlog w'' = new @ hlog w'
                  \<and> (\<forall>m'. Pushed c m' \<notin> set new) \<and> Closed c \<notin> set new)"
proof -
  note inv = reachable_inv [OF assms(1)]
  let ?w0 = "w\<lparr>broadcast := (broadcast w)\<lparr>buf := rest\<rparr>\<rparr>"
  note inv0 = inv_take [OF inv assms(2)]
  from inv(1) assms(3) obtain ch where ch: "Send w c = Some ch" "\<not> closed ch"
    unfolding hub_inv_def by blast
  from assms(4) ch have full: "\<not> length (buf ch) < cap ch" by (simp add: has_room_def)
  from Run_broadcast_inv [OF inv0, of m] obtain w' where
    r: "Run_broadcast m ?w0 = Inr w' \<and> hub_inv w' \<and> log_inv w'
        \<and> clients w' = filter (\<lambda>p. has_room ?w0 (fst p)) (clients ?w0)
        \<and> Send w' = (\<lambda>d. if d \<in> members ?w0 then map_option (attempt m) (Send ?w0 d)
                            else Send ?w0 d)"
    by blast
  then have w': "Run_broadcast m ?w0 = Inr w'" "hub_inv w'" "log_inv w'"
        "clients w' = filter (\<lambda>p. has_room w (fst p)) (clients w)"
        "Send w' = (\<lambda>d. if d \<in> members w then map_option (attempt m) (Send w d) else Send w d)"
    by (simp_all add: has_room_def cong: if_cong)
  have st: "step HubBroadcast w = Inr w'"
    using assms(2) w'(1) by (simp add: Run_take_broadcast_def recv_chan_def)
  have s': "Send w' c = Some (ch\<lparr>closed := True\<rparr>)"
    using assms(3) ch full by (simp add: w'(5) attempt_full)
  have nm: "c \<notin> members w'"
    using assms(4) by (auto simp: members_def w'(4))
  have cl: "Closed c \<in> set (hlog w')"
    using w'(3) s' unfolding log_inv_def by simp
  have later: "\<exists>w'' new. run es' w' = Inr w'' \<and> c \<notin> members w''
                  \<and> hlog w'' = new @ hlog w'
                  \<and> (\<forall>m'. Pushed c m' \<notin> set new) \<and> Closed c \<notin> set new" for es'
  proof -
    from run_inv [OF w'(2,3), of es'] obtain w'' new where
      w'': "run es' w' = Inr w''" "hub_inv w''" "log_inv w''" "hlog w'' = new @ hlog w'"
      by blast
    from w''(3,4) have "no_use_after_close (new @ hlog w')" by (simp add: log_inv_def)
    from no_use_append [OF this cl]
    have q: "(\<forall>m'. Pushed c m' \<notin> set new) \<and> Closed c \<notin> set new" by blast
    from cl w''(4) have "Closed c \<in> set (hlog w'')" by simp
    with w''(3) obtain ch'' where "Send w'' c = Some ch''" "closed ch''"
      unfolding log_inv_def by blast
    with w''(2) have "c \<notin> members w''" unfolding hub_inv_def by force
    with w''(1,4) q show ?thesis by blast
  qed
  from st ch s' nm later show ?thesis by blast
qed

theorem shed_invariant_witness:
  "\<exists>w w' w'' new.
       run ((ServeWs True # replicate 256 (NatsMsg ''a'') @ replicate 256 HubBroadcast)
              @ [NatsMsg ''b'']) boot = Inr w
     \<and> buf (broadcast w) = [''b'']
     \<and> 0 \<in> members w \<and> \<not> has_room w 0
     \<and> step HubBroadcast w = Inr w'
     \<and> Send w' 0 = Some \<lparr>buf = replicate 256 ''a'', cap = 256, closed = True\<rparr>
     \<and> 0 \<notin> members w'
     \<and> run [ServeWs True, NatsMsg ''c'', HubBroadcast] w' = Inr w''
     \<and> 0 \<notin> members w''
     \<and> hlog w'' = new @ hlog w'
     \<and> Pushed 0 ''c'' \<notin> set new \<and> Closed 0 \<notin> set new"
proof -
  let ?fill = "ServeWs True # replicate 256 (NatsMsg ''a'') @ replicate 256 HubBroadcast"
  from fill_scenario [of "''a''"] obtain w0 where
    w0: "run ?fill boot = Inr w0"
       "clients w0 = [(0, True)]"
       "Send w0 0 = Some \<lparr>buf = replicate 256 ''a'', cap = 256, closed = False\<rparr>"
       "broadcast w0 = make_chan 256"
    by blast
  let ?w = "w0\<lparr>broadcast := (make_chan 256)\<lparr>buf := [''b'']\<rparr>\<rparr>"
  have "run [NatsMsg ''b''] w0 = Inr ?w"
    by (simp add: on_nats_msg_def send_chan_def w0(4) make_chan_def)
  with w0(1) have r: "run (?fill @ [NatsMsg ''b'']) boot = Inr ?w"
    using run_append [of ?fill "[NatsMsg ''b'']" boot] by simp
  have b: "buf (broadcast ?w) = ''b'' # []" by simp
  have m: "0 \<in> members ?w" by (simp add: members_def w0(2))
  have f: "\<not> has_room ?w 0" by (simp add: has_room_def w0(3))
  from shed_invariant [OF r b m f] obtain w' ch where
    w': "step HubBroadcast ?w = Inr w'" "Send ?w 0 = Some ch"
        "Send w' 0 = Some (ch\<lparr>closed := True\<rparr>)" "0 \<notin> members w'"
        "\<forall>es'. \<exists>w'' new. run es' w' = Inr w'' \<and> 0 \<notin> members w''
                  \<and> hlog w'' = new @ hlog w'
                  \<and> (\<forall>m'. Pushed 0 m' \<notin> set new) \<and> Closed 0 \<notin> set new"
    by blast
  from w'(5) obtain w'' new where
    w'': "run [ServeWs True, NatsMsg ''c'', HubBroadcast] w' = Inr w''" "0 \<notin> members w''"
         "hlog w'' = new @ hlog w'" "Pushed 0 ''c'' \<notin> set new" "Closed 0 \<notin> set new"
    by blast
  from w'(2,3) w0(3)
  have "Send w' 0 = Some \<lparr>buf = replicate 256 ''a'', cap = 256, closed = True\<rparr>" by auto
  with r b m f w'(1,4) w'' show ?thesis by blast
qed

text \<open>
  Claim C3. After any sequence of steps of the running gateway, \<^verbatim>\<open>Run\<close> has not
  panicked; a client is a member exactly when its newest register, unregister or close
  entry in the history is a register; no channel was pushed into or closed again after it
  was closed; the closed channels are exactly those with a close entry; and every member's
  channel is open. The same reading of membership and the same soundness of the history
  hold in every state that \<^verbatim>\<open>Run\<close> reaches when arbitrary register requests are mixed
  in, also for clients registered twice or registered again after their channel was closed.
\<close>

theorem registry_membership_invariant:
  "(\<exists>w. run es boot = Inr w
      \<and> (\<forall>c. c \<in> members w \<longleftrightarrow> is_live c (hlog w))
      \<and> no_use_after_close (hlog w)
      \<and> (\<forall>c. Closed c \<in> set (hlog w) \<longleftrightarrow> (\<exists>ch. Send w c = Some ch \<and> closed ch))
      \<and> (\<forall>c. c \<in> members w \<longrightarrow> (\<exists>ch. Send w c = Some ch \<and> \<not> closed ch)))
   \<and> (run_open rs boot = Inr w' \<longrightarrow>
        (\<forall>c. c \<in> members w' \<longleftrightarrow> is_live c (hlog w'))
      \<and> no_use_after_close (hlog w')
      \<and> (\<forall>c. Closed c \<in> set (hlog w') \<longleftrightarrow> (\<exists>ch. Send w' c = Some ch \<and> closed ch)))"
proof
  from run_inv [OF boot_inv, of es] obtain w where
    w: "run es boot = Inr w" "hub_inv w" "log_inv w" by blast
  from w(2) have "\<forall>c. c \<in> members w \<longrightarrow> (\<exists>ch. Send w c = Some ch \<and> \<not> closed ch)"
    unfolding hub_inv_def by blast
  with w(1,3) show "\<exists>w. run es boot = Inr w
      \<and> (\<forall>c. c \<in> members w \<longleftrightarrow> is_live c (hlog w))
      \<and> no_use_after_close (hlog w)
      \<and> (\<forall>c. Closed c \<in> set (hlog w) \<longleftrightarrow> (\<exists>ch. Send w c = Some ch \<and> closed ch))
      \<and> (\<forall>c. c \<in> members w \<longrightarrow> (\<exists>ch. Send w c = Some ch \<and> \<not> closed ch))"
    unfolding log_inv_def by blast
next
  show "run_open rs boot = Inr w' \<longrightarrow>
        (\<forall>c. c \<in> members w' \<longleftrightarrow> is_live c (hlog w'))
      \<and> no_use_after_close (hlog w')
      \<and> (\<forall>c. Closed c \<in> set (hlog w') \<longleftrightarrow> (\<exists>ch. Send w' c = Some ch \<and> closed ch))"
  proof
    assume "run_open rs boot = Inr w'"
    from run_open_inv [OF boot_open this] show
      "(\<forall>c. c \<in> members w' \<longleftrightarrow> is_live c (hlog w'))
      \<and> no_use_after_close (hlog w')
      \<and> (\<forall>c. Closed c \<in> set (hlog w') \<longleftrightarrow> (\<exists>ch. Send w' c = Some ch \<and> closed ch))"
      unfolding open_inv_def log_inv_def by blast
  qed
qed

theorem registry_membership_invariant_witness:
  "(\<exists>w. run [ServeWs True, ServeWs True, NatsMsg ''a'', HubBroadcast, Unregister 0,
             NatsMsg ''b'', HubBroadcast, SessionRecv 1] boot = Inr w
     \<and> members w = {1}
     \<and> is_live 1 (hlog w) \<and> \<not> is_live 0 (hlog w)
     \<and> hlog w = [Pushed 1 ''b'', Closed 0, Unregistered 0, Pushed 1 ''a'', Pushed 0 ''a'',
                  Registered 1, Registered 0]
     \<and> no_use_after_close (hlog w)
     \<and> Send w 0 = Some \<lparr>buf = [''a''], cap = 256, closed = True\<rparr>
     \<and> Send w 1 = Some \<lparr>buf = [''b''], cap = 256, closed = False\<rparr>)
   \<and> (\<exists>w'. run_open [Gateway (ServeWs True), Gateway (Unregister 0), Register 0] boot = Inr w'
     \<and> members w' = {0} \<and> is_live 0 (hlog w')
     \<and> hlog w' = [Registered 0, Closed 0, Unregistered 0, Registered 0]
     \<and> no_use_after_close (hlog w'))"
proof
  let ?es = "[ServeWs True, ServeWs True, NatsMsg ''a'', HubBroadcast, Unregister 0,
             NatsMsg ''b'', HubBroadcast, SessionRecv 1]"
  from registry_membership_invariant [of ?es] obtain w where
    w: "run ?es boot = Inr w" "\<forall>c. c \<in> members w \<longleftrightarrow> is_live c (hlog w)"
       "no_use_after_close (hlog w)"
    by blast
  have "\<exists>w0. run ?es boot = Inr w0 \<and> members w0 = {1}
     \<and> hlog w0 = [Pushed 1 ''b'', Closed 0, Unregistered 0, Pushed 1 ''a'', Pushed 0 ''a'',
                  Registered 1, Registered 0]
     \<and> Send w0 0 = Some \<lparr>buf = [''a''], cap = 256, closed = True\<rparr>
     \<and> Send w0 1 = Some \<lparr>buf = [''b''], cap = 256, closed = False\<rparr>"
    by (simp add: eval_defs)
  with w(1) have e: "members w = {1}"
     "hlog w = [Pushed 1 ''b'', Closed 0, Unregistered 0, Pushed 1 ''a'', Pushed 0 ''a'',
                  Registered 1, Registered 0]"
     "Send w 0 = Some \<lparr>buf = [''a''], cap = 256, closed = True\<rparr>"
     "Send w 1 = Some \<lparr>buf = [''b''], cap = 256, closed = False\<rparr>"
    by auto
  from w(2) e(1) have "is_live 1 (hlog w)" "\<not> is_live 0 (hlog w)" by auto
  with w(1,3) e show "\<exists>w. run ?es boot = Inr w
     \<and> members w = {1}
     \<and> is_live 1 (hlog w) \<and> \<not> is_live 0 (hlog w)
     \<and> hlog w = [Pushed 1 ''b'', Closed 0, Unregistered 0, Pushed 1 ''a'', Pushed 0 ''a'',
                  Registered 1, Registered 0]
     \<and> no_use_after_close (hlog w)
     \<and> Send w 0 = Some \<lparr>buf = [''a''], cap = 256, closed = True\<rparr>
     \<and> Send w 1 = Some \<lparr>buf = [''b''], cap = 256, closed = False\<rparr>"
    by blast
next
  let ?rs = "[Gateway (ServeWs True), Gateway (Unregister 0), Register 0]"
  have "\<exists>w'. run_open ?rs boot = Inr w' \<and> members w' = {0}
     \<and> hlog w' = [Registered 0, Closed 0, Unregistered 0, Registered 0]"
    by (simp add: eval_defs)
  then obtain w' where
    w': "run_open ?rs boot = Inr w'" "members w' = {0}"
        "hlog w' = [Registered 0, Closed 0, Unregistered 0, Registered 0]"
    by blast
  from registry_membership_invariant [of _ ?rs w'] w'(1)
  have "\<forall>c. c \<in> members w' \<longleftrightarrow> is_live c (hlog w')" "no_use_after_close (hlog w')"
    by blast+
  with w' show "\<exists>w'. run_open ?rs boot = Inr w'
     \<and> members w' = {0} \<and> is_live 0 (hlog w')
     \<and> hlog w' = [Registered 0, Closed 0, Unregistered 0, Registered 0]
     \<and> no_use_after_close (hlog w')"
    by auto
qed

text \<open>
  Claim C7. Unregistering a client that is not a member changes neither the map nor any
  channel (only the history notes the request). In every reachable state, unregistering a
  member finds its channel open and never closed before, deletes the client and closes the
  channel once; and no unregister request panics.
\<close>

theorem unregister_idempotent:
  "(c \<notin> members w \<longrightarrow>
      Run_unregister c w = Inr (w\<lparr>hlog := Unregistered c # hlog w\<rparr>))
   \<and> (run es boot = Inr w \<longrightarrow> c \<in> members w \<longrightarrow>
        (\<exists>ch. Send w c = Some ch \<and> \<not> closed ch \<and> Closed c \<notin> set (hlog w)
          \<and> Run_unregister c w =
              Inr (w\<lparr>clients := AList.delete c (clients w),
                     Send := (Send w)(c \<mapsto> ch\<lparr>closed := True\<rparr>),
                     hlog := Closed c # Unregistered c # hlog w\<rparr>)
          \<and> c \<notin> fst ` set (AList.delete c (clients w))))
   \<and> (run es boot = Inr w \<longrightarrow> (\<exists>w'. Run_unregister c w = Inr w'))"
proof (intro conjI impI)
  assume "c \<notin> members w"
  then show "Run_unregister c w = Inr (w\<lparr>hlog := Unregistered c # hlog w\<rparr>)"
    by (rule Run_unregister_absent)
next
  assume r: "run es boot = Inr w" and c: "c \<in> members w"
  note inv = reachable_inv [OF r]
  from inv(1) c obtain ch where ch: "Send w c = Some ch" "\<not> closed ch"
    by (auto simp: hub_inv_def)
  have "Closed c \<notin> set (hlog w)" using inv(2) ch by (auto simp: log_inv_def)
  with ch Run_unregister_member [OF c ch]
  show "\<exists>ch. Send w c = Some ch \<and> \<not> closed ch \<and> Closed c \<notin> set (hlog w)
          \<and> Run_unregister c w =
              Inr (w\<lparr>clients := AList.delete c (clients w),
                     Send := (Send w)(c \<mapsto> ch\<lparr>closed := True\<rparr>),
                     hlog := Closed c # Unregistered c # hlog w\<rparr>)
          \<and> c \<notin> fst ` set (AList.delete c (clients w))"
    by (simp add: delete_notin_dom)
next
  assume r: "run es boot = Inr w"
  note inv = reachable_inv [OF r]
  from Run_unregister_inv [OF inv, of c] show "\<exists>w'. Run_unregister c w = Inr w'" by blast
qed

theorem unregister_idempotent_witness:
  "run [ServeWs True] boot = Inr (serveWs True boot)
   \<and> 0 \<in> members (serveWs True boot) \<and> 1 \<notin> members (serveWs True boot)
   \<and> Run_unregister 1 (serveWs True boot)
        = Inr ((serveWs True boot)\<lparr>hlog := [Unregistered 1, Registered 0]\<rparr>)
   \<and> (\<exists>w'. Run_unregister 0 (serveWs True boot) = Inr w'
          \<and> clients w' = []
          \<and> Send w' 0 = Some \<lparr>buf = [], cap = 256, closed = True\<rparr>
          \<and> hlog w' = [Closed 0, Unregistered 0, Registered 0]
          \<and> Run_unregister 0 w' = Inr (w'\<lparr>hlog := Unregistered 0 # hlog w'\<rparr>))"
proof -
  let ?w = "serveWs True boot"
  have r: "run [ServeWs True] boot = Inr ?w" by simp
  have m: "0 \<in> members ?w" "1 \<notin> members ?w" by (simp_all add: eval_defs)
  have s: "Send ?w 0 = Some \<lparr>buf = [], cap = 256, closed = False\<rparr>"
          "clients ?w = [(0, True)]" "hlog ?w = [Registered 0]"
    by (simp_all add: eval_defs)
  from unregister_idempotent [of 1 ?w "[ServeWs True]"] m(2) s(3)
  have a: "Run_unregister 1 ?w = Inr (?w\<lparr>hlog := [Unregistered 1, Registered 0]\<rparr>)"
    by simp
  from unregister_idempotent [of 0 ?w "[ServeWs True]"] r m(1) s
  have b: "Run_unregister 0 ?w =
              Inr (?w\<lparr>clients := [],
                     Send := (Send ?w)(0 \<mapsto> \<lparr>buf = [], cap = 256, closed = True\<rparr>),
                     hlog := [Closed 0, Unregistered 0, Registered 0]\<rparr>)"
    by auto
  let ?w' = "?w\<lparr>clients := [],
                     Send := (Send ?w)(0 \<mapsto> \<lparr>buf = [], cap = 256, closed = True\<rparr>),
                     hlog := [Closed 0, Unregistered 0, Registered 0]\<rparr>"
  have "0 \<notin> members ?w'" by (simp add: members_def)
  with unregister_idempotent [of 0 ?w' "[]"]
  have c: "Run_unregister 0 ?w' = Inr (?w'\<lparr>hlog := Unregistered 0 # hlog ?w'\<rparr>)"
    by blast
  from r m a b c show ?thesis by simp
qed

text \<open>
  Claim C9. Registering a client that is already a key of \<open>clients\<close> leaves the set of
  members and the list of keys as they were, allocates no channel and touches none; when
  the stored value is \<^verbatim>\<open>true\<close>, as it always is, the map is unchanged altogether.
  Handling the same register request twice gives the same map as handling it once.
\<close>

theorem register_idempotent:
  "(c \<in> members w \<longrightarrow>
      members (Run_Register c w) = members w
    \<and> map fst (clients (Run_Register c w)) = map fst (clients w)
    \<and> Send (Run_Register c w) = Send w
    \<and> created (Run_Register c w) = created w
    \<and> broadcast (Run_Register c w) = broadcast w)
   \<and> (map_of (clients w) c = Some True \<longrightarrow> clients (Run_Register c w) = clients w)
   \<and> clients (Run_Register c (Run_Register c w)) = clients (Run_Register c w)"
  by (auto simp: Run_Register_def members_def dom_update update_keys update_triv)

theorem register_idempotent_witness:
  "0 \<in> members (serveWs True boot)
   \<and> map_of (clients (serveWs True boot)) 0 = Some True
   \<and> members (Run_Register 0 (serveWs True boot)) = {0}
   \<and> clients (Run_Register 0 (serveWs True boot)) = [(0, True)]
   \<and> clients (serveWs True boot) = [(0, True)]
   \<and> Send (Run_Register 0 (serveWs True boot)) = Send (serveWs True boot)"
  using register_idempotent [of 0 "serveWs True boot"]
  by (simp add: serveWs_True boot_def NewHub_def members_def)

text \<open>
  Claim C10. \<^verbatim>\<open>NewHub\<close> makes the intake with capacity 256 and \<^verbatim>\<open>serveWs\<close> makes
  every session channel with capacity 256. In every reachable state the intake and every
  session channel have capacity 256 and hold at most 256 elements. A delivery that finds
  256 elements pending closes the channel and deletes the client instead of storing the
  payload: a session served and never drained takes 256 broadcasts, and the 257th sheds it.
\<close>

theorem exact_queue_bounds:
  "cap (broadcast NewHub) = 256
   \<and> Send (serveWs True w0) (created w0) = Some \<lparr>buf = [], cap = 256, closed = False\<rparr>
   \<and> (run es boot = Inr w \<longrightarrow>
         cap (broadcast w) = 256 \<and> length (buf (broadcast w)) \<le> 256
       \<and> (\<forall>c ch. Send w c = Some ch \<longrightarrow> cap ch = 256 \<and> length (buf ch) \<le> 256))
   \<and> (run es boot = Inr w \<longrightarrow> c \<in> members w \<longrightarrow> Send w c = Some ch \<longrightarrow>
         length (buf ch) = 256 \<longrightarrow>
         deliver m c w =
           Inr (w\<lparr>clients := AList.delete c (clients w),
                  Send := (Send w)(c \<mapsto> ch\<lparr>closed := True\<rparr>),
                  hlog := Closed c # hlog w\<rparr>))
   \<and> (\<exists>w1 w2.
          run (ServeWs True # replicate 256 (NatsMsg m) @ replicate 256 HubBroadcast) boot = Inr w1
        \<and> clients w1 = [(0, True)]
        \<and> Send w1 0 = Some \<lparr>buf = replicate 256 m, cap = 256, closed = False\<rparr>
        \<and> run [NatsMsg m', HubBroadcast] w1 = Inr w2
        \<and> clients w2 = []
        \<and> Send w2 0 = Some \<lparr>buf = replicate 256 m, cap = 256, closed = True\<rparr>)"
proof (intro conjI impI)
  show "cap (broadcast NewHub) = 256" by (simp add: NewHub_def make_chan_def)
next
  show "Send (serveWs True w0) (created w0) = Some \<lparr>buf = [], cap = 256, closed = False\<rparr>"
    by (simp add: serveWs_True make_chan_def)
next
  assume r: "run es boot = Inr w"
  from reachable_inv(1) [OF r] show "cap (broadcast w) = 256" by (simp add: hub_inv_def)
next
  assume r: "run es boot = Inr w"
  from reachable_inv(1) [OF r] show "length (buf (broadcast w)) \<le> 256" by (simp add: hub_inv_def)
next
  assume r: "run es boot = Inr w"
  from reachable_inv(1) [OF r]
  show "\<forall>c ch. Send w c = Some ch \<longrightarrow> cap ch = 256 \<and> length (buf ch) \<le> 256"
    unfolding hub_inv_def by blast
next
  assume r: "run es boot = Inr w" and c: "c \<in> members w" and ch: "Send w c = Some ch"
    and full: "length (buf ch) = 256"
  note inv = reachable_inv(1) [OF r]
  from inv c ch have o: "\<not> closed ch" unfolding hub_inv_def by force
  from inv ch have "cap ch = 256" unfolding hub_inv_def by blast
  with full have "\<not> length (buf ch) < cap ch" by simp
  then show "deliver m c w =
           Inr (w\<lparr>clients := AList.delete c (clients w),
                  Send := (Send w)(c \<mapsto> ch\<lparr>closed := True\<rparr>),
                  hlog := Closed c # hlog w\<rparr>)"
    by (simp add: deliver_member [OF ch o] attempt_full)
next
  show "\<exists>w1 w2.
          run (ServeWs True # replicate 256 (NatsMsg m) @ replicate 256 HubBroadcast) boot = Inr w1
        \<and> clients w1 = [(0, True)]
        \<and> Send w1 0 = Some \<lparr>buf = replicate 256 m, cap = 256, closed = False\<rparr>
        \<and> run [NatsMsg m', HubBroadcast] w1 = Inr w2
        \<and> clients w2 = []
        \<and> Send w2 0 = Some \<lparr>buf = replicate 256 m, cap = 256, closed = True\<rparr>"
    by (rule overflow_scenario)
qed

theorem exact_queue_bounds_witness:
  "\<exists>w w'. run (ServeWs True # replicate 256 (NatsMsg ''a'') @ replicate 256 HubBroadcast) boot = Inr w
     \<and> 0 \<in> members w
     \<and> Send w 0 = Some \<lparr>buf = replicate 256 ''a'', cap = 256, closed = False\<rparr>
     \<and> length (replicate 256 ''a'') = 256
     \<and> cap (broadcast w) = 256 \<and> length (buf (broadcast w)) \<le> 256
     \<and> deliver ''b'' 0 w = Inr w'
     \<and> clients w' = []
     \<and> Send w' 0 = Some \<lparr>buf = replicate 256 ''a'', cap = 256, closed = True\<rparr>"
proof -
  let ?es = "ServeWs True # replicate 256 (NatsMsg ''a'') @ replicate 256 HubBroadcast"
  let ?ch = "\<lparr>buf = replicate 256 ''a'', cap = 256, closed = False\<rparr>"
  from fill_scenario [of "''a''"] obtain w where
    w: "run ?es boot = Inr w" "clients w = [(0, True)]" "Send w 0 = Some ?ch"
    by blast
  have m: "0 \<in> members w" by (simp add: members_def w(2))
  have l: "length (buf ?ch) = 256" by simp
  from exact_queue_bounds [where es = ?es and w = w and c = 0 and ch = ?ch and m = "''b''"]
    w(1,3) m l
  have b: "cap (broadcast w) = 256" "length (buf (broadcast w)) \<le> 256"
    and d: "deliver ''b'' 0 w =
           Inr (w\<lparr>clients := AList.delete 0 (clients w),
                  Send := (Send w)(0 \<mapsto> ?ch\<lparr>closed := True\<rparr>),
                  hlog := Closed 0 # hlog w\<rparr>)"
    by blast+
  from w m b d show ?thesis by simp
qed

text \<open>
  Claim C4. When the write loop wakes on its channel with \<open>K \<ge> 1\<close> payloads pending
  and the connection accepts the frame (\<^verbatim>\<open>NextWriter\<close> and the flush return no error),
  it hands the connection exactly one text frame, whose bytes are the \<open>K\<close> payloads in
  the order they were queued, unchanged, with one newline between neighbours; the channel is
  left empty and the loop goes on to its next turn. The turn is taken as one step, with no
  push by the hub in between.
\<close>

theorem coalescing_correctness:
  assumes "buf (queue s) = p # ps" and "next_writer_ok t" and "flush_ok t"
  shows "write_message_case t s =
           (Continue, s\<lparr>queue := (queue s)\<lparr>buf := []\<rparr>,
                        wire := wire s @ [(TextMessage, join_newline (p # ps))]\<rparr>)
       \<and> (write_running s \<longrightarrow>
            WriteMsgToWebSocket_turn (SendReady t) s =
              s\<lparr>queue := (queue s)\<lparr>buf := []\<rparr>,
                wire := wire s @ [(TextMessage, join_newline (p # ps))]\<rparr>)"
proof -
  have r: "recv_chan (queue s) = Got p ((queue s)\<lparr>buf := ps\<rparr>)"
    using assms(1) by (simp add: recv_chan_def)
  have c: "coalesce (length ps) ((queue s)\<lparr>buf := ps\<rparr>) p
             = (p @ concat (map ((#) newline) ps), (queue s)\<lparr>buf := ps\<rparr>\<lparr>buf := []\<rparr>)"
    by (rule coalesce_all) simp
  have e: "write_message_case t s =
           (Continue, s\<lparr>queue := (queue s)\<lparr>buf := []\<rparr>,
                        wire := wire s @ [(TextMessage, join_newline (p # ps))]\<rparr>)"
    using assms(2,3) by (simp add: write_message_case_def r c join_newline_Cons)
  then show ?thesis
    by (simp add: WriteMsgToWebSocket_turn_def)
qed

theorem coalescing_correctness_witness:
  "buf (queue (start_session \<lparr>buf = [''{1}'', ''{2}'', ''{3}''], cap = 256, closed = False\<rparr>))
     = [''{1}'', ''{2}'', ''{3}'']
   \<and> write_running (start_session \<lparr>buf = [''{1}'', ''{2}'', ''{3}''], cap = 256, closed = False\<rparr>)
   \<and> write_message_case \<lparr>next_writer_ok = True, flush_ok = True, control_ok = True\<rparr>
         (start_session \<lparr>buf = [''{1}'', ''{2}'', ''{3}''], cap = 256, closed = False\<rparr>)
       = (Continue,
          (start_session \<lparr>buf = [], cap = 256, closed = False\<rparr>)
            \<lparr>wire := [(TextMessage, ''{1}'' @ [newline] @ ''{2}'' @ [newline] @ ''{3}'')]\<rparr>)
   \<and> WriteMsgToWebSocket_turn
         (SendReady \<lparr>next_writer_ok = True, flush_ok = True, control_ok = True\<rparr>)
         (start_session \<lparr>buf = [''{1}'', ''{2}'', ''{3}''], cap = 256, closed = False\<rparr>)
       = (start_session \<lparr>buf = [], cap = 256, closed = False\<rparr>)
            \<lparr>wire := [(TextMessage, ''{1}'' @ [newline] @ ''{2}'' @ [newline] @ ''{3}'')]\<rparr>"
  using coalescing_correctness
    [of "start_session \<lparr>buf = [''{1}'', ''{2}'', ''{3}''], cap = 256, closed = False\<rparr>"
        "''{1}''" "[''{2}'', ''{3}'']"
        "\<lparr>next_writer_ok = True, flush_ok = True, control_ok = True\<rparr>"]
  by (simp add: start_session_def)

text \<open>
  Claim C5 fails on the code. With a failed subscription \<^verbatim>\<open>Run\<close> still logs that the
  hub is subscribed and serves its loop without end or panic, with an intake that stays
  empty; on steps that involve no broker message it behaves exactly as after a successful
  subscription.
\<close>

theorem subscribe_failure_ignored:
  "fst (Run True es) = [''Hub subscribed to tasks.* events'']
   \<and> (\<exists>w. snd (Run True es) = Inr w \<and> buf (broadcast w) = [])
   \<and> Run True [ServeWs True, Unregister 0] = Run False [ServeWs True, Unregister 0]"
proof -
  have nb: "\<exists>w. run xs w0 = Inr w \<and> buf (broadcast w) = []"
    if "hub_inv w0" "log_inv w0" "buf (broadcast w0) = []" "list_all (\<lambda>e. \<not> from_broker e) xs"
    for xs w0
    using that
  proof (induction xs arbitrary: w0)
    case Nil
    then show ?case by simp
  next
    case (Cons e xs)
    from step_inv [OF Cons.prems(1,2), of e] obtain w1 where
      w1: "step e w0 = Inr w1" "hub_inv w1" "log_inv w1" by blast
    have "buf (broadcast w1) = []"
    proof (cases e)
      case (ServeWs b)
      with w1(1) Cons.prems(3) show ?thesis
        by (cases b) (auto simp: serveWs_def Run_Register_def Let_def)
    next
      case (Unregister c)
      with Run_unregister_inv [OF Cons.prems(1,2), of c] w1(1) Cons.prems(3) show ?thesis
        by (auto simp: Run_unregister_def close_chan_def split: option.splits if_splits)
    next
      case (NatsMsg m)
      with Cons.prems(4) show ?thesis by simp
    next
      case HubBroadcast
      with w1(1) Cons.prems(1,3) show ?thesis
        by (auto simp: Run_take_broadcast_def recv_chan_def hub_inv_def)
    next
      case (SessionRecv c)
      with w1(1) Cons.prems(3) show ?thesis
        by (auto simp: session_recv_def split: option.splits recv.splits)
    qed
    with Cons.IH [OF w1(2,3)] Cons.prems(4) w1(1) show ?case by simp
  qed
  have "list_all (\<lambda>e. \<not> from_broker e) (filter (\<lambda>e. \<not> from_broker e) es)"
    by (simp add: list_all_iff)
  from nb [OF boot_inv _ this] have "\<exists>w. snd (Run True es) = Inr w \<and> buf (broadcast w) = []"
    by (simp add: Run_def boot_def NewHub_def make_chan_def)
  then show ?thesis by (simp add: Run_def)
qed

text \<open>
  Claim C6, as the code has it. From the start of a session and after any turns of its two
  loops: the read loop has returned exactly when the client has been sent on
  \<^verbatim>\<open>Hub.unregister\<close>, which happens once, and a read loop that has returned has closed
  the connection; a read loop still running returns on the next error of
  \<^verbatim>\<open>ReadMessage\<close>, sending the client on \<^verbatim>\<open>Hub.unregister\<close> and closing the
  connection, while a message read on an open connection changes nothing. A write loop that
  has returned has closed the connection and stopped the ticker; once the connection is
  closed, the next return of \<^verbatim>\<open>ReadMessage\<close> ends the read loop, which then sends the
  client on \<^verbatim>\<open>Hub.unregister\<close>; and turns of the write loop alone never send it. So
  the write loop deregisters only through the read loop, and a session both of whose loops
  have returned has been sent on \<^verbatim>\<open>Hub.unregister\<close>. On the hub's side, in every
  reachable state, handling that request for a client \<^verbatim>\<open>serveWs\<close> created leaves it
  outside the registry, and it stays outside whatever the gateway does next.
\<close>

theorem session_deregistration:
  "(\<not> read_running (session_run es (start_session ch))
      \<longleftrightarrow> unregister_sends (session_run es (start_session ch)) = 1)
   \<and> (read_running (session_run es (start_session ch))
      \<longleftrightarrow> unregister_sends (session_run es (start_session ch)) = 0)
   \<and> (\<not> write_running (session_run es (start_session ch)) \<longrightarrow>
        conn_closed (session_run es (start_session ch))
      \<and> ticker_stopped (session_run es (start_session ch)))
   \<and> (conn_closed (session_run es (start_session ch)) \<longrightarrow>
        \<not> read_running (session_run (es @ [ReadReturns peer]) (start_session ch))
      \<and> unregister_sends (session_run (es @ [ReadReturns peer]) (start_session ch)) = 1)
   \<and> (list_all is_write_event es \<longrightarrow>
        unregister_sends (session_run es (start_session ch)) = 0
      \<and> read_running (session_run es (start_session ch)))
   \<and> (run hs boot = Inr w \<longrightarrow> c < created w \<longrightarrow>
        (\<exists>w'. step (Unregister c) w = Inr w' \<and> c \<notin> members w'
           \<and> (\<forall>hs'. \<exists>w''. run hs' w' = Inr w'' \<and> c \<notin> members w'')))
   \<and> (\<not> read_running (session_run es (start_session ch)) \<longrightarrow>
        conn_closed (session_run es (start_session ch)))
   \<and> (read_running (session_run es (start_session ch)) \<longrightarrow>
        \<not> read_running (session_run (es @ [ReadReturns ReadErr]) (start_session ch))
      \<and> unregister_sends (session_run (es @ [ReadReturns ReadErr]) (start_session ch)) = 1
      \<and> conn_closed (session_run (es @ [ReadReturns ReadErr]) (start_session ch)))
   \<and> (\<not> conn_closed (session_run es (start_session ch)) \<longrightarrow>
        session_run (es @ [ReadReturns (ReadOk message)]) (start_session ch)
          = session_run es (start_session ch))"
proof -
  let ?s = "session_run es (start_session ch)"
  have "loops_ok (start_session ch)" by (simp add: loops_ok_def start_session_def)
  then have ok: "loops_ok ?s" by (rule session_run_ok)
  have app: "session_run (es @ [ReadReturns peer]) (start_session ch)
               = ReadMsgFromWebSocket_turn peer ?s"
    for peer
  proof -
    have "session_run (xs @ [e]) s = session_step e (session_run xs s)" for xs e s
      by (induction xs arbitrary: s) simp_all
    then show ?thesis by simp
  qed
  have 4: "conn_closed ?s \<longrightarrow>
        \<not> read_running (ReadMsgFromWebSocket_turn peer ?s)
      \<and> unregister_sends (ReadMsgFromWebSocket_turn peer ?s) = 1"
    using ok
    by (auto simp: loops_ok_def ReadMsgFromWebSocket_turn_def ReadMessage_def read_deferred_def)
  have 5: "list_all is_write_event es \<longrightarrow> unregister_sends ?s = 0 \<and> read_running ?s"
    using writes_only [of es "start_session ch"] by (simp add: start_session_def)
  have 6: "run hs boot = Inr w \<longrightarrow> c < created w \<longrightarrow>
        (\<exists>w'. step (Unregister c) w = Inr w' \<and> c \<notin> members w'
           \<and> (\<forall>hs'. \<exists>w''. run hs' w' = Inr w'' \<and> c \<notin> members w''))"
  proof (intro impI)
    assume r: "run hs boot = Inr w" and c: "c < created w"
    note inv = reachable_inv [OF r]
    from unregister_removes [OF inv, of c] obtain w' where
      w': "step (Unregister c) w = Inr w'" "hub_inv w'" "log_inv w'" "c \<notin> members w'"
          "created w' = created w"
      by blast
    from c w'(5) have "c < created w'" by simp
    from stays_out [OF w'(2,3,4) this] w'(1,4)
    show "\<exists>w'. step (Unregister c) w = Inr w' \<and> c \<notin> members w'
           \<and> (\<forall>hs'. \<exists>w''. run hs' w' = Inr w'' \<and> c \<notin> members w'')"
      by blast
  qed
  have 7: "\<not> read_running ?s \<longrightarrow> conn_closed ?s"
    using ok by (simp add: loops_ok_def)
  have 8: "read_running ?s \<longrightarrow>
        \<not> read_running (ReadMsgFromWebSocket_turn ReadErr ?s)
      \<and> unregister_sends (ReadMsgFromWebSocket_turn ReadErr ?s) = 1
      \<and> conn_closed (ReadMsgFromWebSocket_turn ReadErr ?s)"
    using ok
    by (auto simp: loops_ok_def ReadMsgFromWebSocket_turn_def ReadMessage_def read_deferred_def)
  have 9: "\<not> conn_closed ?s \<longrightarrow> ReadMsgFromWebSocket_turn (ReadOk message) ?s = ?s"
    by (simp add: ReadMsgFromWebSocket_turn_def ReadMessage_def)
  from ok 4 5 have "(\<not> read_running ?s \<longleftrightarrow> unregister_sends ?s = 1)
   \<and> (read_running ?s \<longleftrightarrow> unregister_sends ?s = 0)
   \<and> (\<not> write_running ?s \<longrightarrow> conn_closed ?s \<and> ticker_stopped ?s)
   \<and> (conn_closed ?s \<longrightarrow>
        \<not> read_running (session_run (es @ [ReadReturns peer]) (start_session ch))
      \<and> unregister_sends (session_run (es @ [ReadReturns peer]) (start_session ch)) = 1)
   \<and> (list_all is_write_event es \<longrightarrow> unregister_sends ?s = 0 \<and> read_running ?s)"
    unfolding app loops_ok_def by auto
  with 6 7 8 9 show ?thesis unfolding app by blast
qed

theorem session_deregistration_witness:
  "conn_closed
       (session_run [WriteWakes (SendReady \<lparr>next_writer_ok = True, flush_ok = True, control_ok = True\<rparr>)]
          (start_session \<lparr>buf = [], cap = 256, closed = True\<rparr>))
   \<and> \<not> write_running
       (session_run [WriteWakes (SendReady \<lparr>next_writer_ok = True, flush_ok = True, control_ok = True\<rparr>)]
          (start_session \<lparr>buf = [], cap = 256, closed = True\<rparr>))
   \<and> unregister_sends
       (session_run [WriteWakes (SendReady \<lparr>next_writer_ok = True, flush_ok = True, control_ok = True\<rparr>)]
          (start_session \<lparr>buf = [], cap = 256, closed = True\<rparr>)) = 0
   \<and> \<not> read_running
       (session_run [WriteWakes (SendReady \<lparr>next_writer_ok = True, flush_ok = True, control_ok = True\<rparr>),
                     ReadReturns (ReadOk ''hello'')]
          (start_session \<lparr>buf = [], cap = 256, closed = True\<rparr>))
   \<and> unregister_sends
       (session_run [WriteWakes (SendReady \<lparr>next_writer_ok = True, flush_ok = True, control_ok = True\<rparr>),
                     ReadReturns (ReadOk ''hello'')]
          (start_session \<lparr>buf = [], cap = 256, closed = True\<rparr>)) = 1
   \<and> run [ServeWs True] boot = Inr (serveWs True boot)
   \<and> 0 < created (serveWs True boot)
   \<and> (\<exists>w' w''. step (Unregister 0) (serveWs True boot) = Inr w' \<and> 0 \<notin> members w'
         \<and> run [NatsMsg ''a'', HubBroadcast] w' = Inr w'' \<and> 0 \<notin> members w'')
   \<and> read_running (session_run [] (start_session (make_chan 256)))
   \<and> \<not> conn_closed (session_run [] (start_session (make_chan 256)))
   \<and> session_run [ReadReturns (ReadOk ''hello'')] (start_session (make_chan 256))
        = start_session (make_chan 256)
   \<and> \<not> read_running (session_run [ReadReturns ReadErr] (start_session (make_chan 256)))
   \<and> unregister_sends (session_run [ReadReturns ReadErr] (start_session (make_chan 256))) = 1
   \<and> conn_closed (session_run [ReadReturns ReadErr] (start_session (make_chan 256)))
   \<and> write_running (session_run [ReadReturns ReadErr] (start_session (make_chan 256)))"
proof -
  let ?es = "[WriteWakes (SendReady \<lparr>next_writer_ok = True, flush_ok = True, control_ok = True\<rparr>)]"
  let ?ch = "\<lparr>buf = [], cap = 256, closed = True\<rparr>"
  have w: "\<not> write_running (session_run ?es (start_session ?ch))"
    by (simp add: start_session_def WriteMsgToWebSocket_turn_def write_message_case_def
                recv_chan_def write_deferred_def)
  have l: "list_all is_write_event ?es" by simp
  have r: "run [ServeWs True] boot = Inr (serveWs True boot)" by simp
  have c: "0 < created (serveWs True boot)" by (simp add: serveWs_True)
  note t = session_deregistration
    [of ?es ?ch "ReadOk ''hello''" "[ServeWs True]" "serveWs True boot" 0]
  from t r c obtain w' where
    w': "step (Unregister 0) (serveWs True boot) = Inr w'" "0 \<notin> members w'"
        "\<forall>hs'. \<exists>w''. run hs' w' = Inr w'' \<and> 0 \<notin> members w''"
    by blast
  from w'(3) obtain w'' where "run [NatsMsg ''a'', HubBroadcast] w' = Inr w''" "0 \<notin> members w''"
    by blast
  with w'(1,2) have h: "\<exists>w' w''. step (Unregister 0) (serveWs True boot) = Inr w' \<and> 0 \<notin> members w'
         \<and> run [NatsMsg ''a'', HubBroadcast] w' = Inr w'' \<and> 0 \<notin> members w''"
    by blast
  from t w l have a: "conn_closed (session_run ?es (start_session ?ch))
     \<and> unregister_sends (session_run ?es (start_session ?ch)) = 0
     \<and> \<not> read_running (session_run (?es @ [ReadReturns (ReadOk ''hello'')]) (start_session ?ch))
     \<and> unregister_sends (session_run (?es @ [ReadReturns (ReadOk ''hello'')]) (start_session ?ch)) = 1"
    by blast
  have s0: "read_running (session_run [] (start_session (make_chan 256)))"
           "\<not> conn_closed (session_run [] (start_session (make_chan 256)))"
    by (simp_all add: start_session_def)
  note u = session_deregistration
    [where es = "[]" and ch = "make_chan 256" and message = "''hello''"]
  from u s0 have b: "session_run ([] @ [ReadReturns (ReadOk ''hello'')]) (start_session (make_chan 256))
        = session_run [] (start_session (make_chan 256))
     \<and> \<not> read_running (session_run ([] @ [ReadReturns ReadErr]) (start_session (make_chan 256)))
     \<and> unregister_sends (session_run ([] @ [ReadReturns ReadErr]) (start_session (make_chan 256))) = 1
     \<and> conn_closed (session_run ([] @ [ReadReturns ReadErr]) (start_session (make_chan 256)))"
    by blast
  have wr: "write_running (session_run [ReadReturns ReadErr] (start_session (make_chan 256)))"
    by (simp add: start_session_def ReadMsgFromWebSocket_turn_def ReadMessage_def
                  read_deferred_def)
  from w r c h a s0 b wr show ?thesis by simp
qed

text \<open>
  The write loop returning first, here on a channel the hub has closed: it has returned,
  the read loop is still running, and nothing has been sent on \<^verbatim>\<open>Hub.unregister\<close>.
\<close>

theorem outbound_exit_sends_no_unregister:
  "\<not> write_running
       (session_run [WriteWakes (SendReady \<lparr>next_writer_ok = True, flush_ok = True, control_ok = True\<rparr>)]
          (start_session \<lparr>buf = [], cap = 256, closed = True\<rparr>))
   \<and> read_running
       (session_run [WriteWakes (SendReady \<lparr>next_writer_ok = True, flush_ok = True, control_ok = True\<rparr>)]
          (start_session \<lparr>buf = [], cap = 256, closed = True\<rparr>))
   \<and> unregister_sends
       (session_run [WriteWakes (SendReady \<lparr>next_writer_ok = True, flush_ok = True, control_ok = True\<rparr>)]
          (start_session \<lparr>buf = [], cap = 256, closed = True\<rparr>)) = 0"
  by (simp add: start_session_def WriteMsgToWebSocket_turn_def write_message_case_def
                recv_chan_def write_deferred_def)

end
